theory Spec2Isabelle
  imports Main
begin

section \<open>Timestamp finder: the normalizer and the /ask handler of main.py\<close>

text \<open>
  The source is one Python module, \<^verbatim>\<open>main.py\<close>. Its pure part is
  \<^verbatim>\<open>extract_video_id\<close>, \<^verbatim>\<open>seconds_to_hhmmss\<close> and
  \<^verbatim>\<open>parse_timestamp_to_hhmmss\<close>; its effectful part is the handler
  \<^verbatim>\<open>ask\<close>, which drives a downloader process, the local file system and a
  remote file and inference service.

  Conventions of the embedding:
  \<^item> A Python \<^verbatim>\<open>str\<close> is a \<open>string\<close>; a \<open>char\<close> is read as the code point
    of the same number, so the strings covered are those over U+0000 .. U+00FF. In this
    range \<^verbatim>\<open>\d\<close> of the \<^verbatim>\<open>re\<close> module matches exactly \<^verbatim>\<open>0\<close> .. \<^verbatim>\<open>9\<close>, and
    \<^verbatim>\<open>str.strip()\<close> removes exactly the code points listed in \<open>is_space\<close>.
  \<^item> Python integers are unbounded: \<open>int\<close>. A conversion between an integer and a decimal
    string of more than \<open>int_max_str_digits\<close> digits raises ValueError, in \<^verbatim>\<open>int(s)\<close> and
    in the \<^verbatim>\<open>d\<close> format alike: the interpreter's limit (4300 by default since Python 3.11),
    which the source never changes.
  \<^item> A raised exception is the \<open>Inl\<close> of a sum; a returned value is the \<open>Inr\<close>.
\<close>

subsection \<open>Characters, digits and whitespace\<close>

definition is_digit :: "char \<Rightarrow> bool" where
  "is_digit c = (48 \<le> (of_char c :: nat) \<and> (of_char c :: nat) \<le> 57)"

definition is_space :: "char \<Rightarrow> bool" where
  \<comment> \<open>\<^verbatim>\<open>str.isspace\<close> on U+0000 .. U+00FF: TAB, LF, VT, FF, CR, FS, GS, RS, US, SPACE, NEL, NBSP\<close>
  "is_space c = ((of_char c :: nat) \<in> {9, 10, 11, 12, 13, 28, 29, 30, 31, 32, 133, 160})"

definition digit_val :: "char \<Rightarrow> nat" where
  "digit_val c = of_char c - 48"

definition digit_char :: "nat \<Rightarrow> char" where
  "digit_char d = char_of (48 + d)"

definition colon :: char where
  "colon = CHR '':''"

definition newline :: char where
  "newline = CHR 0x0A"

subsection \<open>Exceptions\<close>

datatype py_exn =
    HTTPException nat string  \<comment> \<open>\<^verbatim>\<open>HTTPException(status_code, detail)\<close>\<close>
  | ValueError string  \<comment> \<open>with its \<^verbatim>\<open>str(e)\<close>, as the next two\<close>
  | IndexError string
  | Exception string  \<comment> \<open>any other subclass of \<^verbatim>\<open>Exception\<close>\<close>

definition bnd :: "py_exn + 'a \<Rightarrow> ('a \<Rightarrow> py_exn + 'b) \<Rightarrow> py_exn + 'b" where
  \<comment> \<open>sequencing: an exception of the first computation skips the second\<close>
  "bnd m f = (case m of Inl e \<Rightarrow> Inl e | Inr v \<Rightarrow> f v)"

subsection \<open>String primitives of Python used by the source\<close>

definition strip :: "string \<Rightarrow> string" where
  \<comment> \<open>\<^verbatim>\<open>ts.strip()\<close>\<close>
  "strip s = rev (dropWhile is_space (rev (dropWhile is_space s)))"

fun split_on :: "char \<Rightarrow> string \<Rightarrow> string list" where
  \<comment> \<open>\<^verbatim>\<open>s.split(sep)\<close> for a one-character separator: never an empty list\<close>
  "split_on sep [] = [[]]"
| "split_on sep (c # cs) =
     (if c = sep then [] # split_on sep cs
      else (case split_on sep cs of [] \<Rightarrow> [[c]] | f # fs \<Rightarrow> (c # f) # fs))"

definition index :: "'a list \<Rightarrow> nat \<Rightarrow> py_exn + 'a" where
  \<comment> \<open>\<^verbatim>\<open>xs[i]\<close> for \<open>i \<ge> 0\<close>\<close>
  "index xs i = (if i < length xs then Inr (xs ! i) else Inl (IndexError ''list index out of range''))"

definition digits_value :: "string \<Rightarrow> nat" where
  \<comment> \<open>the number a string of decimal digits denotes\<close>
  "digits_value s = foldl (\<lambda>a c. 10 * a + digit_val c) 0 s"

fun str_nat :: "nat \<Rightarrow> string" where
  \<comment> \<open>the decimal digits of a natural number, as \<^verbatim>\<open>str\<close> prints them\<close>
  "str_nat n = (if n < 10 then [digit_char n] else str_nat (n div 10) @ [digit_char (n mod 10)])"

declare str_nat.simps [simp del]

definition int_max_str_digits :: nat where
  \<comment> \<open>\<^verbatim>\<open>sys.get_int_max_str_digits()\<close>: the default, \<^verbatim>\<open>sys.int_info.default_max_str_digits\<close>\<close>
  "int_max_str_digits = 4300"

definition py_int :: "string \<Rightarrow> py_exn + int" where
  \<comment> \<open>\<^verbatim>\<open>int(s)\<close> on the strings the source passes to it, which are runs of digits.
      (Python also accepts a sign, surrounding whitespace and underscores; no text matched
      by \<^verbatim>\<open>\d\<close> contains them, and every other string is a ValueError here.)
      The digits of the string are counted, leading zeros too, before any is converted:
      more than \<open>int_max_str_digits\<close> of them is a ValueError.\<close>
  "py_int s =
     (if s \<noteq> [] \<and> list_all is_digit s then
        (if int_max_str_digits < length s then
           Inl (ValueError (''Exceeds the limit ('' @ str_nat int_max_str_digits @
                            '' digits) for integer string conversion: value has '' @
                            str_nat (length s) @
                            '' digits; use sys.set_int_max_str_digits() to increase the limit''))
         else Inr (int (digits_value s)))
      else Inl (ValueError (''invalid literal for int() with base 10: '' @
                            [CHR 0x27] @ s @ [CHR 0x27])))"

definition fmt02d :: "int \<Rightarrow> py_exn + string" where
  \<comment> \<open>the format \<^verbatim>\<open>{n:02d}\<close>: zero-padded to a width of at least 2, the sign counted in
      the width; an integer of more than \<open>int_max_str_digits\<close> digits is a ValueError\<close>
  "fmt02d n =
     (if int_max_str_digits < length (str_nat (nat \<bar>n\<bar>)) then
        Inl (ValueError (''Exceeds the limit ('' @ str_nat int_max_str_digits @
                         '' digits) for integer string conversion; '' @
                         ''use sys.set_int_max_str_digits() to increase the limit''))
      else if n < 0 then Inr (CHR ''-'' # str_nat (nat (- n)))
      else Inr (replicate (2 - length (str_nat (nat n))) CHR ''0'' @ str_nat (nat n)))"

subsection \<open>The fragment of Python's regular expressions the source uses\<close>

text \<open>
  The six patterns of the source are sequences of literal characters, a choice between
  literal words, greedy bounded repetitions of a character class and the anchors
  \<^verbatim>\<open>^\<close> and \<^verbatim>\<open>$\<close>. The matcher is the backtracking matcher of \<^verbatim>\<open>re\<close> on
  this fragment: a choice tries its words in order; a repetition first takes as many
  characters as it may and gives them back one at a time while the rest of the pattern
  fails. \<^verbatim>\<open>$\<close> (without MULTILINE) holds at the end of the string and just before a
  newline that ends the string. A match is reported as the list of the texts taken by the
  repetitions, in order; in the three patterns whose groups the source reads, the
  repetitions are exactly the groups, so this list is \<^verbatim>\<open>group(1)\<close>,
  \<^verbatim>\<open>group(2)\<close>, ...
\<close>

datatype cls =
    Digit  \<comment> \<open>\<^verbatim>\<open>\d\<close>\<close>
  | IdChar  \<comment> \<open>\<^verbatim>\<open>[a-zA-Z0-9_-]\<close>\<close>

definition is_id_char :: "char \<Rightarrow> bool" where
  "is_id_char c =
     (let n = (of_char c :: nat)
      in (97 \<le> n \<and> n \<le> 122) \<or> (65 \<le> n \<and> n \<le> 90) \<or> (48 \<le> n \<and> n \<le> 57) \<or>
         c = CHR ''_'' \<or> c = CHR ''-'')"

fun in_cls :: "cls \<Rightarrow> char \<Rightarrow> bool" where
  "in_cls Digit c = is_digit c"
| "in_cls IdChar c = is_id_char c"

datatype item =
    Lit char  \<comment> \<open>a literal character\<close>
  | Alt "string list"  \<comment> \<open>\<^verbatim>\<open>(?:w1|w2|...)\<close>, a choice between literal words, not a group\<close>
  | Rep cls nat "nat option"  \<comment> \<open>\<^verbatim>\<open>C{lo,hi}\<close>; no upper bound is \<open>None\<close>\<close>
  | Bol  \<comment> \<open>\<^verbatim>\<open>^\<close>\<close>
  | Eol  \<comment> \<open>\<^verbatim>\<open>$\<close>\<close>

fun first_some :: "('a \<Rightarrow> 'b option) \<Rightarrow> 'a list \<Rightarrow> 'b option" where
  "first_some f [] = None"
| "first_some f (k # ks) = (case f k of Some r \<Rightarrow> Some r | None \<Rightarrow> first_some f ks)"

definition greedy_counts :: "nat \<Rightarrow> nat option \<Rightarrow> nat \<Rightarrow> nat list" where
  \<comment> \<open>the repetition counts to try when \<open>n\<close> characters of the class are ahead: the
      largest allowed first\<close>
  "greedy_counts lo hi n = rev [lo ..< Suc (case hi of None \<Rightarrow> n | Some h \<Rightarrow> min h n)]"

definition starts_with :: "string \<Rightarrow> string \<Rightarrow> bool" where
  "starts_with s w = (take (length w) s = w)"

fun match_here :: "item list \<Rightarrow> nat \<Rightarrow> string \<Rightarrow> string list option" where
  \<comment> \<open>the pattern against the text \<open>s\<close> that starts at position \<open>pos\<close> of the subject\<close>
  "match_here [] pos s = Some []"
| "match_here (Lit c # r) pos s =
     (case s of [] \<Rightarrow> None | x # t \<Rightarrow> if x = c then match_here r (Suc pos) t else None)"
| "match_here (Alt ws # r) pos s =
     first_some
       (\<lambda>w. if starts_with s w then match_here r (pos + length w) (drop (length w) s) else None)
       ws"
| "match_here (Bol # r) pos s = (if pos = 0 then match_here r pos s else None)"
| "match_here (Eol # r) pos s =
     (if s = [] \<or> s = [newline] then match_here r pos s else None)"
| "match_here (Rep C lo hi # r) pos s =
     first_some
       (\<lambda>k. map_option ((#) (take k s)) (match_here r (pos + k) (drop k s)))
       (greedy_counts lo hi (length (takeWhile (in_cls C) s)))"

definition re_match :: "item list \<Rightarrow> string \<Rightarrow> string list option" where
  \<comment> \<open>\<^verbatim>\<open>re.match(p, s)\<close>: a match at position 0 only\<close>
  "re_match p s = match_here p 0 s"

fun search_from :: "item list \<Rightarrow> nat \<Rightarrow> string \<Rightarrow> string list option" where
  "search_from p pos [] = match_here p pos []"
| "search_from p pos (c # t) =
     (case match_here p pos (c # t) of
        Some gs \<Rightarrow> Some gs
      | None \<Rightarrow> search_from p (Suc pos) t)"

definition re_search :: "item list \<Rightarrow> string \<Rightarrow> string list option" where
  \<comment> \<open>\<^verbatim>\<open>re.search(p, s)\<close>: the match at the leftmost position that has one\<close>
  "re_search p s = search_from p 0 s"

definition group_of :: "string list \<Rightarrow> nat \<Rightarrow> py_exn + string" where
  \<comment> \<open>\<^verbatim>\<open>match.group(k)\<close> for \<open>k \<ge> 1\<close>\<close>
  "group_of gs k =
     (if 1 \<le> k \<and> k \<le> length gs then Inr (gs ! (k - 1)) else Inl (IndexError ''no such group''))"

subsection \<open>The patterns of the source\<close>

definition pat_hhmmss :: "item list" where
  \<comment> \<open>\<^verbatim>\<open>r'^\d{2}:\d{2}:\d{2}$'\<close>\<close>
  "pat_hhmmss =
     [Bol, Rep Digit 2 (Some 2), Lit colon, Rep Digit 2 (Some 2), Lit colon, Rep Digit 2 (Some 2), Eol]"

definition pat_mmss :: "item list" where
  \<comment> \<open>\<^verbatim>\<open>r'^\d{1,2}:\d{2}$'\<close>\<close>
  "pat_mmss = [Bol, Rep Digit 1 (Some 2), Lit colon, Rep Digit 2 (Some 2), Eol]"

definition pat_seconds :: "item list" where
  \<comment> \<open>\<^verbatim>\<open>r'^\d+$'\<close>\<close>
  "pat_seconds = [Bol, Rep Digit 1 None, Eol]"

definition pat_find_hms :: "item list" where
  \<comment> \<open>\<^verbatim>\<open>r'(\d{1,2}):(\d{2}):(\d{2})'\<close>\<close>
  "pat_find_hms = [Rep Digit 1 (Some 2), Lit colon, Rep Digit 2 (Some 2), Lit colon, Rep Digit 2 (Some 2)]"

definition pat_find_ms :: "item list" where
  \<comment> \<open>\<^verbatim>\<open>r'(\d{1,2}):(\d{2})'\<close>\<close>
  "pat_find_ms = [Rep Digit 1 (Some 2), Lit colon, Rep Digit 2 (Some 2)]"

definition pat_video_id :: "item list" where
  \<comment> \<open>\<^verbatim>\<open>r'(?:v=|youtu\.be/|embed/)([a-zA-Z0-9_-]{11})'\<close>\<close>
  "pat_video_id = [Alt [''v='', ''youtu.be/'', ''embed/''], Rep IdChar 11 (Some 11)]"

subsection \<open>extract_video_id\<close>

fun extract_video_id_loop :: "item list list \<Rightarrow> string \<Rightarrow> py_exn + string option" where
  \<comment> \<open>the \<^verbatim>\<open>for pattern in patterns\<close> loop; \<^verbatim>\<open>None\<close> after the last pattern\<close>
  "extract_video_id_loop [] url = Inr None"
| "extract_video_id_loop (pattern # patterns) url =
     (case re_search pattern url of
        Some gs \<Rightarrow> bnd (group_of gs 1) (\<lambda>g. Inr (Some g))
      | None \<Rightarrow> extract_video_id_loop patterns url)"

definition extract_video_id :: "string \<Rightarrow> py_exn + string option" where
  "extract_video_id url = extract_video_id_loop [pat_video_id] url"

subsection \<open>seconds_to_hhmmss and parse_timestamp_to_hhmmss\<close>

definition seconds_to_hhmmss :: "int \<Rightarrow> py_exn + string" where
  \<comment> \<open>the only caller passes an \<^verbatim>\<open>int\<close>, on which \<^verbatim>\<open>int(seconds)\<close> is the identity;
      \<^verbatim>\<open>//\<close> and \<^verbatim>\<open>%\<close> round towards minus infinity, as \<open>div\<close> and \<open>mod\<close> on \<open>int\<close> do;
      the fields of the f-string are formatted from left to right\<close>
  "seconds_to_hhmmss seconds =
     (let h = seconds div 3600;
          m = (seconds mod 3600) div 60;
          s = seconds mod 60
      in bnd (fmt02d h) (\<lambda>fh. bnd (fmt02d m) (\<lambda>fm. bnd (fmt02d s) (\<lambda>fs.
         Inr (fh @ [colon] @ fm @ [colon] @ fs)))))"

definition fmt_mm_ss :: "py_exn + string \<Rightarrow> py_exn + string \<Rightarrow> py_exn + string" where
  \<comment> \<open>\<^verbatim>\<open>f"00:{int(x):02d}:{int(y):02d}"\<close>, of the texts \<open>x\<close> and \<open>y\<close> (themselves the results
      of an indexing): each field is evaluated, converted and formatted before the next\<close>
  "fmt_mm_ss x y =
     bnd x (\<lambda>p0. bnd (py_int p0) (\<lambda>a. bnd (fmt02d a) (\<lambda>fa.
     bnd y (\<lambda>p1. bnd (py_int p1) (\<lambda>b. bnd (fmt02d b) (\<lambda>fb.
     Inr (''00:'' @ fa @ [colon] @ fb)))))))"

definition fmt_hh_mm_ss ::
  "py_exn + string \<Rightarrow> py_exn + string \<Rightarrow> py_exn + string \<Rightarrow> py_exn + string" where
  \<comment> \<open>\<^verbatim>\<open>f"{int(x):02d}:{int(y):02d}:{int(z):02d}"\<close>\<close>
  "fmt_hh_mm_ss x y z =
     bnd x (\<lambda>g1. bnd (py_int g1) (\<lambda>a. bnd (fmt02d a) (\<lambda>fa.
     bnd y (\<lambda>g2. bnd (py_int g2) (\<lambda>b. bnd (fmt02d b) (\<lambda>fb.
     bnd z (\<lambda>g3. bnd (py_int g3) (\<lambda>c. bnd (fmt02d c) (\<lambda>fc.
     Inr (fa @ [colon] @ fb @ [colon] @ fc))))))))))"

definition parse_timestamp_to_hhmmss :: "string \<Rightarrow> py_exn + string" where
  "parse_timestamp_to_hhmmss raw =
     (let ts = strip raw in
      if re_match pat_hhmmss ts \<noteq> None then Inr ts
      else if re_match pat_mmss ts \<noteq> None then
        (let parts = split_on colon ts in fmt_mm_ss (index parts 0) (index parts 1))
      else if re_match pat_seconds ts \<noteq> None then
        bnd (py_int ts) seconds_to_hhmmss
      else
        (case re_search pat_find_hms ts of
           Some gs \<Rightarrow> fmt_hh_mm_ss (group_of gs 1) (group_of gs 2) (group_of gs 3)
         | None \<Rightarrow>
             (case re_search pat_find_ms ts of
                Some gs \<Rightarrow> fmt_mm_ss (group_of gs 1) (group_of gs 2)
              | None \<Rightarrow> Inr ''00:00:00'')))"

subsection \<open>The six rules of the normalizer, after the words of the specification\<close>

text \<open>
  The specification (4.1) gives the normalizer as six rules in priority order. The
  definitions of this subsection follow its words, not the code: shapes are spelled out
  character by character, and "the first embedded substring" scans the start positions
  from the left.
\<close>

fun hh_mm_ss :: "string \<Rightarrow> bool" where
  \<comment> \<open>exactly \<^verbatim>\<open>HH:MM:SS\<close>, each field exactly 2 digits\<close>
  "hh_mm_ss [a, b, p, c, d, q, e, f] =
     (is_digit a \<and> is_digit b \<and> p = colon \<and> is_digit c \<and> is_digit d \<and> q = colon \<and>
      is_digit e \<and> is_digit f)"
| "hh_mm_ss _ = False"

fun m_ss :: "string \<Rightarrow> (string \<times> string) option" where
  \<comment> \<open>exactly \<^verbatim>\<open>M:SS\<close> or \<^verbatim>\<open>MM:SS\<close>: the minutes and the seconds field\<close>
  "m_ss [a, p, c, d] =
     (if is_digit a \<and> p = colon \<and> is_digit c \<and> is_digit d then Some ([a], [c, d]) else None)"
| "m_ss [a, b, p, c, d] =
     (if is_digit a \<and> is_digit b \<and> p = colon \<and> is_digit c \<and> is_digit d
      then Some ([a, b], [c, d]) else None)"
| "m_ss _ = None"

fun h_mm_ss :: "string \<Rightarrow> (string \<times> string \<times> string) option" where
  \<comment> \<open>exactly \<^verbatim>\<open>H:MM:SS\<close> or \<^verbatim>\<open>HH:MM:SS\<close>: the hour, minute and second field\<close>
  "h_mm_ss [a, p, c, d, q, e, f] =
     (if is_digit a \<and> p = colon \<and> is_digit c \<and> is_digit d \<and> q = colon \<and>
         is_digit e \<and> is_digit f
      then Some ([a], [c, d], [e, f]) else None)"
| "h_mm_ss [a, b, p, c, d, q, e, f] =
     (if is_digit a \<and> is_digit b \<and> p = colon \<and> is_digit c \<and> is_digit d \<and> q = colon \<and>
         is_digit e \<and> is_digit f
      then Some ([a, b], [c, d], [e, f]) else None)"
| "h_mm_ss _ = None"

definition all_digits :: "string \<Rightarrow> bool" where
  \<comment> \<open>consists entirely of digits (and is a number: at least one digit)\<close>
  "all_digits t = (t \<noteq> [] \<and> list_all is_digit t)"

definition over_limit :: "string \<Rightarrow> bool" where
  \<comment> \<open>a number of more digits than the interpreter converts\<close>
  "over_limit t = (all_digits t \<and> int_max_str_digits < length t)"

definition pad2 :: "string \<Rightarrow> string" where
  \<comment> \<open>zero-padded to 2 characters; a longer text is kept\<close>
  "pad2 f = replicate (2 - length f) CHR ''0'' @ f"

fun first_embedded :: "(string \<Rightarrow> 'a option) \<Rightarrow> nat list \<Rightarrow> string \<Rightarrow> 'a option" where
  \<comment> \<open>the first substring of one of the lengths \<open>lens\<close> that has the shape, by start position\<close>
  "first_embedded shape lens [] = None"
| "first_embedded shape lens (c # t) =
     (case first_some (\<lambda>n. shape (take n (c # t))) lens of
        Some w \<Rightarrow> Some w
      | None \<Rightarrow> first_embedded shape lens t)"

definition normalize_spec :: "string \<Rightarrow> string" where
  "normalize_spec raw =
     (let t = strip raw in
      if hh_mm_ss t then t
      else (case m_ss t of
        Some (m, s) \<Rightarrow> ''00:'' @ pad2 m @ [colon] @ s
      | None \<Rightarrow>
          if all_digits t then
            (let total = digits_value t;
                 H = total div 3600;
                 M = (total mod 3600) div 60;
                 S = total mod 60
             in pad2 (str_nat H) @ [colon] @ pad2 (str_nat M) @ [colon] @ pad2 (str_nat S))
          else (case first_embedded h_mm_ss [8, 7] t of
            Some (h, m, s) \<Rightarrow> pad2 h @ [colon] @ pad2 m @ [colon] @ pad2 s
          | None \<Rightarrow>
              (case first_embedded m_ss [5, 4] t of
                 Some (m, s) \<Rightarrow> ''00:'' @ pad2 m @ [colon] @ s
               | None \<Rightarrow> ''00:00:00''))))"

definition recognized :: "string \<Rightarrow> bool" where
  \<comment> \<open>one of the rules 1 to 5 applies to the trimmed text: a numeric pattern is recognized\<close>
  "recognized t =
     (hh_mm_ss t \<or> m_ss t \<noteq> None \<or> all_digits t \<or>
      first_embedded h_mm_ss [8, 7] t \<noteq> None \<or> first_embedded m_ss [5, 4] t \<noteq> None)"

definition timestamp_shaped :: "string \<Rightarrow> bool" where
  \<comment> \<open>three fields of digits between colons: the hours at least 2 wide, the minutes and
      the seconds exactly 2 wide\<close>
  "timestamp_shaped out =
     (case split_on colon out of
        [h, m, s] \<Rightarrow>
          all_digits h \<and> 2 \<le> length h \<and> all_digits m \<and> length m = 2 \<and>
          all_digits s \<and> length s = 2
      | _ \<Rightarrow> False)"

definition hours_field :: "string \<Rightarrow> string" where
  "hours_field out = takeWhile (\<lambda>c. c \<noteq> colon) out"

definition canonical_timestamp :: "string \<Rightarrow> bool" where
  \<comment> \<open>the CanonicalTimestamp of the specification (3): the shape, and minutes and seconds
      in [00,59]\<close>
  "canonical_timestamp out =
     (timestamp_shaped out \<and>
      (case split_on colon out of
         [h, m, s] \<Rightarrow> digits_value m \<le> 59 \<and> digits_value s \<le> 59
       | _ \<Rightarrow> False))"

definition fields_ok :: "string \<Rightarrow> string \<Rightarrow> string \<Rightarrow> bool" where
  \<comment> \<open>the three fields of an output: digits, the first at least 2 wide, the others 2 wide\<close>
  "fields_ok h m s =
     (all_digits h \<and> 2 \<le> length h \<and> all_digits m \<and> length m = 2 \<and> all_digits s \<and> length s = 2)"


subsection \<open>The video identifier, after the words of the specification\<close>

text \<open>
  The specification (4.2): the first occurrence of an 11-character identifier following
  one of the words \<^verbatim>\<open>v=\<close>, \<^verbatim>\<open>youtu.be/\<close>, \<^verbatim>\<open>embed/\<close>; nothing if there is none.
\<close>

definition video_words :: "string list" where
  "video_words = [''v='', ''youtu.be/'', ''embed/'']"

definition is_identifier :: "string \<Rightarrow> bool" where
  \<comment> \<open>11 characters, each a letter, a digit, an underscore or a hyphen\<close>
  "is_identifier i = (length i = 11 \<and> list_all is_id_char i)"

definition occurs_at :: "string \<Rightarrow> nat \<Rightarrow> string \<Rightarrow> string \<Rightarrow> bool" where
  \<comment> \<open>at position \<open>k\<close> of the URL stands the word \<open>w\<close>, immediately followed by the
      identifier \<open>i\<close>\<close>
  "occurs_at url k w i =
     (w \<in> set video_words \<and> is_identifier i \<and> take (length w + 11) (drop k url) = w @ i)"

definition id_after :: "string \<Rightarrow> string \<Rightarrow> string option" where
  \<comment> \<open>the identifier that follows the word \<open>w\<close> at the head of \<open>s\<close>\<close>
  "id_after s w =
     (if starts_with s w \<and> is_identifier (take 11 (drop (length w) s))
      then Some (take 11 (drop (length w) s)) else None)"

fun first_video_id :: "string \<Rightarrow> string option" where
  "first_video_id [] = None"
| "first_video_id (c # t) =
     (case first_some (id_after (c # t)) video_words of
        Some i \<Rightarrow> Some i
      | None \<Rightarrow> first_video_id t)"

section \<open>The /ask handler\<close>

text \<open>
  The handler is the \<^verbatim>\<open>try\<close> statement of \<^verbatim>\<open>ask\<close> (lines 76 to 186): a body of
  six steps, two \<^verbatim>\<open>except\<close> clauses and a \<^verbatim>\<open>finally\<close> clause. (The imports and the
  construction of the client run before it and touch nothing the handler releases.)
  The handler has no \<^verbatim>\<open>await\<close>, so it runs from its first step to its exit without
  interleaving.

  Everything outside the handler is a parameter \<open>env\<close>: what \<^verbatim>\<open>tempfile.mkdtemp\<close>,
  the downloader process, the remote file service, the remote model and \<^verbatim>\<open>json.loads\<close>
  answer, and whether the two cleanup calls fail. An answer \<open>Inl msg\<close> is a raised
  exception (a subclass of \<^verbatim>\<open>Exception\<close> other than HTTPException) whose
  \<^verbatim>\<open>str(e)\<close> is \<open>msg\<close>. The theorems hold for every \<open>env\<close>.

  The state is the local file system (the directories, and the directory entries as
  pairs of a directory and a name, in the order \<^verbatim>\<open>os.listdir\<close> reports them), the two local
  variables the \<^verbatim>\<open>finally\<close> clause reads, and the list of the calls made so far. The
  downloader writes into the directory it is given and nowhere else.
\<close>

type_synonym path = "string \<times> string"  \<comment> \<open>\<^verbatim>\<open>os.path.join(directory, name)\<close>\<close>

record file_handle =
  fname :: string  \<comment> \<open>\<^verbatim>\<open>uploaded_file.name\<close>\<close>
  furi :: string  \<comment> \<open>\<^verbatim>\<open>uploaded_file.uri\<close>\<close>
  fstate :: string  \<comment> \<open>\<^verbatim>\<open>uploaded_file.state.name\<close>\<close>

record request =
  video_url :: string
  topic :: string

record response =
  timestamp :: string
  echoed_url :: string
  echoed_topic :: string

datatype jvalue =
    JString string
  | JOther string  \<comment> \<open>any value that is not a string, with the \<^verbatim>\<open>str(e)\<close> of the
      AttributeError that \<^verbatim>\<open>.strip()\<close> raises on it\<close>

datatype jdoc =
    JObject "string \<Rightarrow> jvalue option"
  | JNotObject string  \<comment> \<open>any other document, with the \<^verbatim>\<open>str(e)\<close> of the AttributeError
      that \<^verbatim>\<open>.get\<close> raises on it\<close>

datatype event =
    Mkdtemp  \<comment> \<open>\<^verbatim>\<open>tempfile.mkdtemp()\<close>\<close>
  | Run "string list"  \<comment> \<open>\<^verbatim>\<open>subprocess.run(cmd, ...)\<close>\<close>
  | Upload path  \<comment> \<open>\<^verbatim>\<open>client.files.upload(file=...)\<close>\<close>
  | Sleep nat  \<comment> \<open>\<^verbatim>\<open>time.sleep(n)\<close>\<close>
  | Get string  \<comment> \<open>\<^verbatim>\<open>client.files.get(name=...)\<close>\<close>
  | Generate string string  \<comment> \<open>\<^verbatim>\<open>client.models.generate_content\<close>: the file URI and the topic of the prompt\<close>
  | OsRemove path  \<comment> \<open>\<^verbatim>\<open>os.remove(...)\<close>\<close>
  | Delete string  \<comment> \<open>\<^verbatim>\<open>client.files.delete(name=...)\<close>\<close>

record env =
  mkdtemp_result :: "string + string"
  run_result :: "string + int \<times> string"  \<comment> \<open>\<^verbatim>\<open>returncode\<close> and \<^verbatim>\<open>stderr\<close>\<close>
  run_files :: "string list"  \<comment> \<open>the names the downloader leaves in the directory\<close>
  upload_result :: "string + file_handle"
  get_result :: "nat \<Rightarrow> string + file_handle"  \<comment> \<open>\<^verbatim>\<open>files.get\<close> after so many seconds of waiting\<close>
  generate_result :: "string + string"  \<comment> \<open>\<^verbatim>\<open>response.text\<close>\<close>
  loads_result :: "string \<Rightarrow> string + jdoc"  \<comment> \<open>\<^verbatim>\<open>json.loads\<close>\<close>
  remove_fails :: bool  \<comment> \<open>\<^verbatim>\<open>os.remove\<close> raises\<close>
  delete_fails :: bool  \<comment> \<open>\<^verbatim>\<open>client.files.delete\<close> raises\<close>

record state =
  dirs :: "string set"
  files :: "path list"
  trace :: "event list"
  tmp_audio :: "path option"  \<comment> \<open>the variable \<^verbatim>\<open>tmp_audio\<close>; \<^verbatim>\<open>None\<close> at first\<close>
  uploaded_file :: "file_handle option"  \<comment> \<open>the variable \<^verbatim>\<open>uploaded_file\<close>; \<^verbatim>\<open>None\<close> at first\<close>

type_synonym 'a step = "state \<Rightarrow> (py_exn + 'a) \<times> state"

definition seq :: "'a step \<Rightarrow> ('a \<Rightarrow> 'b step) \<Rightarrow> 'b step" where
  \<comment> \<open>one statement after another: an exception of the first skips the second\<close>
  "seq m f s = (case m s of (Inl e, s') \<Rightarrow> (Inl e, s') | (Inr v, s') \<Rightarrow> f v s')"

definition log :: "event \<Rightarrow> state \<Rightarrow> state" where
  "log e s = s\<lparr>trace := trace s @ [e]\<rparr>"

definition path_str :: "path \<Rightarrow> string" where
  "path_str p = fst p @ ''/'' @ snd p"

definition path_exists :: "state \<Rightarrow> path \<Rightarrow> bool" where
  \<comment> \<open>\<^verbatim>\<open>os.path.exists\<close>\<close>
  "path_exists s p = (p \<in> set (files s))"

definition listdir :: "state \<Rightarrow> string \<Rightarrow> string list" where
  \<comment> \<open>\<^verbatim>\<open>os.listdir\<close>\<close>
  "listdir s d = map snd (filter (\<lambda>p. fst p = d) (files s))"

definition none_path :: py_exn where
  \<comment> \<open>a path function called on \<^verbatim>\<open>None\<close>\<close>
  "none_path = Exception ''expected str, bytes or os.PathLike object, not NoneType''"

definition none_attr :: py_exn where
  \<comment> \<open>an attribute read on \<^verbatim>\<open>None\<close>\<close>
  "none_attr = Exception ''NoneType object has no attribute''"

definition max_wait :: nat where
  "max_wait = 120"

definition download :: "env \<Rightarrow> request \<Rightarrow> string step" where
  \<comment> \<open>lines 81 to 96; the value is \<^verbatim>\<open>tmp_dir\<close>\<close>
  "download e body s =
     (case mkdtemp_result e of
        Inl msg \<Rightarrow> (Inl (Exception msg), log Mkdtemp s)
      | Inr tmp_dir \<Rightarrow>
          (let s1 = (log Mkdtemp s)\<lparr>dirs := insert tmp_dir (dirs s)\<rparr>;
               s2 = s1\<lparr>tmp_audio := Some (tmp_dir, ''audio.mp3'')\<rparr>;
               cmd = [''yt-dlp'', ''--extract-audio'', ''--audio-format'', ''mp3'',
                      ''--audio-quality'', ''0'', ''--no-playlist'',
                      ''-o'', path_str (tmp_dir, ''audio.mp3''), video_url body];
               s3 = (log (Run cmd) s2)\<lparr>files := files s2 @ map (Pair tmp_dir) (run_files e)\<rparr>
           in (case run_result e of
                 Inl msg \<Rightarrow> (Inl (Exception msg), s3)
               | Inr (returncode, stderr) \<Rightarrow>
                   if returncode \<noteq> 0
                   then (Inl (HTTPException 400 (''yt-dlp error: '' @ stderr)), s3)
                   else (Inr tmp_dir, s3))))"

definition locate :: "string \<Rightarrow> unit step" where
  \<comment> \<open>lines 98 to 106\<close>
  "locate tmp_dir s =
     (case tmp_audio s of
        None \<Rightarrow> (Inl none_path, s)
      | Some p \<Rightarrow>
          (let s1 = (if \<not> path_exists s p
                     then (case find (\<lambda>f. starts_with f ''audio'') (listdir s tmp_dir) of
                             Some f \<Rightarrow> s\<lparr>tmp_audio := Some (tmp_dir, f)\<rparr>
                           | None \<Rightarrow> s)
                     else s)
           in (case tmp_audio s1 of
                 None \<Rightarrow> (Inl none_path, s1)
               | Some q \<Rightarrow>
                   if \<not> path_exists s1 q
                   then (Inl (HTTPException 500 ''Audio file not created''), s1)
                   else (Inr (), s1))))"

definition upload :: "env \<Rightarrow> unit step" where
  \<comment> \<open>lines 109 to 112\<close>
  "upload e s =
     (case tmp_audio s of
        None \<Rightarrow> (Inl none_path, s)
      | Some p \<Rightarrow>
          (case upload_result e of
             Inl msg \<Rightarrow> (Inl (Exception msg), log (Upload p) s)
           | Inr f \<Rightarrow> (Inr (), (log (Upload p) s)\<lparr>uploaded_file := Some f\<rparr>)))"

function poll :: "env \<Rightarrow> nat \<Rightarrow> unit step" where
  \<comment> \<open>lines 115 to 120: the \<^verbatim>\<open>while\<close> loop, entered with \<^verbatim>\<open>waited\<close>\<close>
  "poll e waited s =
     (case uploaded_file s of
        None \<Rightarrow> (Inl none_attr, s)
      | Some f \<Rightarrow>
          if fstate f \<noteq> ''ACTIVE'' \<and> waited < max_wait
          then (case get_result e (waited + 3) of
                  Inl msg \<Rightarrow> (Inl (Exception msg), log (Get (fname f)) (log (Sleep 3) s))
                | Inr f' \<Rightarrow>
                    poll e (waited + 3)
                      ((log (Get (fname f)) (log (Sleep 3) s))\<lparr>uploaded_file := Some f'\<rparr>))
          else (Inr (), s))"
  by pat_completeness auto
termination
  by (relation "measure (\<lambda>(e, waited, s). max_wait - waited)") auto

definition check_active :: "file_handle step" where
  \<comment> \<open>lines 122 and 123; the value is \<^verbatim>\<open>uploaded_file\<close>\<close>
  "check_active s =
     (case uploaded_file s of
        None \<Rightarrow> (Inl none_attr, s)
      | Some f \<Rightarrow>
          if fstate f \<noteq> ''ACTIVE''
          then (Inl (HTTPException 500 ''File processing timed out''), s)
          else (Inr f, s))"

definition get_timestamp :: "jdoc \<Rightarrow> py_exn + jvalue" where
  \<comment> \<open>\<^verbatim>\<open>result_data.get("timestamp", "00:00:00")\<close>\<close>
  "get_timestamp doc =
     (case doc of
        JNotObject msg \<Rightarrow> Inl (Exception msg)
      | JObject d \<Rightarrow> (case d ''timestamp'' of None \<Rightarrow> Inr (JString ''00:00:00'') | Some v \<Rightarrow> Inr v))"

definition parse_value :: "jvalue \<Rightarrow> py_exn + string" where
  \<comment> \<open>\<^verbatim>\<open>parse_timestamp_to_hhmmss\<close> on a value that need not be a string\<close>
  "parse_value v =
     (case v of JOther msg \<Rightarrow> Inl (Exception msg) | JString raw \<Rightarrow> parse_timestamp_to_hhmmss raw)"

definition query :: "env \<Rightarrow> request \<Rightarrow> file_handle \<Rightarrow> response step" where
  \<comment> \<open>lines 126 to 168\<close>
  "query e body f s =
     (let s1 = log (Generate (furi f) (topic body)) s
      in (case generate_result e of
            Inl msg \<Rightarrow> (Inl (Exception msg), s1)
          | Inr text \<Rightarrow>
              (case loads_result e text of
                 Inl msg \<Rightarrow> (Inl (Exception msg), s1)
               | Inr result_data \<Rightarrow>
                   (bnd (get_timestamp result_data) (\<lambda>v.
                    bnd (parse_value v) (\<lambda>ts.
                    Inr \<lparr>timestamp = ts, echoed_url = video_url body,
                         echoed_topic = topic body\<rparr>)), s1))))"

definition after_upload :: "env \<Rightarrow> request \<Rightarrow> response step" where
  \<comment> \<open>lines 114 to 168: the poll, the check and the query\<close>
  "after_upload e body = seq (poll e 0) (\<lambda>_. seq check_active (\<lambda>f. query e body f))"

definition try_body :: "env \<Rightarrow> request \<Rightarrow> response step" where
  \<comment> \<open>lines 80 to 168\<close>
  "try_body e body =
     seq (download e body) (\<lambda>tmp_dir.
     seq (locate tmp_dir) (\<lambda>_.
     seq (upload e) (\<lambda>_. after_upload e body)))"

fun str_exn :: "py_exn \<Rightarrow> string" where
  \<comment> \<open>\<^verbatim>\<open>str(e)\<close>\<close>
  "str_exn (HTTPException c d) = d"
| "str_exn (ValueError msg) = msg"
| "str_exn (IndexError msg) = msg"
| "str_exn (Exception msg) = msg"

fun except_clauses :: "py_exn + 'a \<Rightarrow> py_exn + 'a" where
  \<comment> \<open>lines 170 to 173\<close>
  "except_clauses (Inr v) = Inr v"
| "except_clauses (Inl (HTTPException c d)) = Inl (HTTPException c d)"
| "except_clauses (Inl e) = Inl (HTTPException 500 (str_exn e))"

definition os_remove :: "env \<Rightarrow> path \<Rightarrow> unit step" where
  "os_remove e p s =
     (if remove_fails e then (Inl (Exception ''os.remove failed''), log (OsRemove p) s)
      else (Inr (), (log (OsRemove p) s)\<lparr>files := removeAll p (files s)\<rparr>))"

definition files_delete :: "env \<Rightarrow> string \<Rightarrow> unit step" where
  "files_delete e name s =
     (if delete_fails e then (Inl (Exception ''files.delete failed''), log (Delete name) s)
      else (Inr (), log (Delete name) s))"

definition except_pass :: "unit step \<Rightarrow> unit step" where
  \<comment> \<open>\<^verbatim>\<open>try: ... except: pass\<close>\<close>
  "except_pass m s = (case m s of (Inl e, s') \<Rightarrow> (Inr (), s') | (Inr v, s') \<Rightarrow> (Inr (), s'))"

definition finally_clause :: "env \<Rightarrow> unit step" where
  \<comment> \<open>lines 175 to 186\<close>
  "finally_clause e =
     seq (\<lambda>s. case tmp_audio s of
                None \<Rightarrow> (Inr (), s)
              | Some p \<Rightarrow> if path_exists s p then except_pass (os_remove e p) s else (Inr (), s))
       (\<lambda>_ s. case uploaded_file s of
                None \<Rightarrow> (Inr (), s)
              | Some f \<Rightarrow> except_pass (files_delete e (fname f)) s)"

definition initial :: "string set \<Rightarrow> path list \<Rightarrow> state" where
  \<comment> \<open>the state at line 79, on a file system with the given directories and entries\<close>
  "initial D F = \<lparr>dirs = D, files = F, trace = [], tmp_audio = None, uploaded_file = None\<rparr>"

definition ask :: "env \<Rightarrow> request \<Rightarrow> state \<Rightarrow> (py_exn + response) \<times> state" where
  \<comment> \<open>the \<^verbatim>\<open>try\<close> statement: an exception raised by the \<^verbatim>\<open>finally\<close> clause would replace
      the outcome of the body\<close>
  "ask e body s0 =
     (case try_body e body s0 of
        (r, s1) \<Rightarrow>
          (case finally_clause e s1 of
             (Inl x, s2) \<Rightarrow> (Inl x, s2)
           | (Inr _, s2) \<Rightarrow> (except_clauses r, s2)))"

subsection \<open>Reading a trace\<close>

definition sleeps :: "event list \<Rightarrow> nat list" where
  \<comment> \<open>the durations of the sleeps, in order\<close>
  "sleeps tr = concat (map (\<lambda>ev. case ev of Sleep n \<Rightarrow> [n] | _ \<Rightarrow> []) tr)"

definition gets :: "event list \<Rightarrow> string list" where
  "gets tr = concat (map (\<lambda>ev. case ev of Get n \<Rightarrow> [n] | _ \<Rightarrow> []) tr)"

definition deletes :: "event list \<Rightarrow> string list" where
  "deletes tr = concat (map (\<lambda>ev. case ev of Delete n \<Rightarrow> [n] | _ \<Rightarrow> []) tr)"

definition removes :: "event list \<Rightarrow> path list" where
  "removes tr = concat (map (\<lambda>ev. case ev of OsRemove p \<Rightarrow> [p] | _ \<Rightarrow> []) tr)"

definition generates :: "event list \<Rightarrow> (string \<times> string) list" where
  "generates tr = concat (map (\<lambda>ev. case ev of Generate u t \<Rightarrow> [(u, t)] | _ \<Rightarrow> []) tr)"

definition uploads :: "event list \<Rightarrow> path list" where
  "uploads tr = concat (map (\<lambda>ev. case ev of Upload p \<Rightarrow> [p] | _ \<Rightarrow> []) tr)"

definition runs :: "event list \<Rightarrow> string list list" where
  "runs tr = concat (map (\<lambda>ev. case ev of Run c \<Rightarrow> [c] | _ \<Rightarrow> []) tr)"

definition mkdtemps :: "event list \<Rightarrow> nat" where
  "mkdtemps tr = length (filter (\<lambda>ev. ev = Mkdtemp) tr)"

definition poll_events :: "string list \<Rightarrow> event list" where
  \<comment> \<open>the calls of as many rounds of the loop as there are names: a sleep of 3 seconds,
      then a fetch under the name\<close>
  "poll_events names = concat (map (\<lambda>n. [Sleep 3, Get n]) names)"

definition body_ok :: "env \<Rightarrow> string set \<Rightarrow> path list \<Rightarrow> py_exn + response \<Rightarrow> state \<Rightarrow> bool" where
  \<comment> \<open>what the body of the \<^verbatim>\<open>try\<close> statement, started in \<open>initial D F\<close>, leaves behind
      with its outcome \<open>r\<close>: the calls it made, the file system, the two variables\<close>
  "body_ok e D F r s1 =
     ((\<exists>rs us names gs.
         trace s1 = Mkdtemp # map Run rs @ map Upload us @ poll_events names @
                      map (\<lambda>(u, t). Generate u t) gs \<and>
         length rs \<le> 1 \<and> length us \<le> 1 \<and> length names \<le> 40 \<and> length gs \<le> 1 \<and>
         (gs \<noteq> [] \<longrightarrow> (\<exists>f. uploaded_file s1 = Some f \<and> fstate f = ''ACTIVE'')) \<and>
         (\<forall>v. r = Inr v \<longrightarrow> gs \<noteq> []) \<and>
         (us \<noteq> [] \<and> (\<exists>f0. upload_result e = Inr f0) \<longrightarrow> uploaded_file s1 \<noteq> None)) \<and>
      dirs s1 = (case mkdtemp_result e of Inr d \<Rightarrow> insert d D | Inl _ \<Rightarrow> D) \<and>
      files s1 = F @ (case mkdtemp_result e of Inr d \<Rightarrow> map (Pair d) (run_files e) | Inl _ \<Rightarrow> []) \<and>
      (uploaded_file s1 \<noteq> None \<longrightarrow> (\<exists>f0. upload_result e = Inr f0)) \<and>
      (\<forall>p. tmp_audio s1 = Some p \<longrightarrow> (\<exists>d. mkdtemp_result e = Inr d \<and> fst p = d)) \<and>
      (\<forall>x. r = Inl x \<longrightarrow>
         (\<exists>msg. x = Exception msg \<or> x = ValueError msg) \<or>
         x = HTTPException 500 ''Audio file not created'' \<or>
         x = HTTPException 500 ''File processing timed out'' \<or>
         (\<exists>d rc err. mkdtemp_result e = Inr d \<and> run_result e = Inr (rc, err) \<and> rc \<noteq> 0 \<and>
            x = HTTPException 400 (''yt-dlp error: '' @ err))))"

subsection \<open>Concrete requests\<close>

definition processing :: file_handle where
  "processing = \<lparr>fname = ''files/abc'', furi = ''https://files/abc'', fstate = ''PROCESSING''\<rparr>"

definition active :: file_handle where
  "active = \<lparr>fname = ''files/abc'', furi = ''https://files/abc'', fstate = ''ACTIVE''\<rparr>"

definition a_request :: request where
  "a_request = \<lparr>video_url = ''https://youtu.be/dQw4w9WgXcQ'', topic = ''cats''\<rparr>"

definition oracle_fails :: env where
  \<comment> \<open>the downloader writes two files under other extensions, the upload is ready after 9
      seconds, the model call fails, and so does the deletion of the remote handle\<close>
  "oracle_fails =
     \<lparr>mkdtemp_result = Inr ''/tmp/tmpx'', run_result = Inr (0, []),
      run_files = [''audio.webm'', ''audio.m4a''],
      upload_result = Inr processing,
      get_result = (\<lambda>t. if t < 9 then Inr processing else Inr active),
      generate_result = Inl ''503 UNAVAILABLE'',
      loads_result = (\<lambda>text. Inl ''Expecting value''),
      remove_fails = False, delete_fails = True\<rparr>"

definition never_ready :: env where
  \<comment> \<open>as before, but the upload never leaves the state PROCESSING\<close>
  "never_ready = oracle_fails\<lparr>get_result := (\<lambda>t. Inr processing)\<rparr>"

definition download_fails :: env where
  \<comment> \<open>the downloader exits with status 1\<close>
  "download_fails =
     oracle_fails\<lparr>run_result := Inr (1, ''ERROR: Unsupported URL''), run_files := []\<rparr>"

definition no_audio :: env where
  \<comment> \<open>the downloader exits with status 0 and leaves no file whose name starts with \<^verbatim>\<open>audio\<close>\<close>
  "no_audio = oracle_fails\<lparr>run_files := [''video.webm'']\<rparr>"

section \<open>Lemmas about the normalizer\<close>

lemma is_digit_not_colon: "is_digit c \<Longrightarrow> c \<noteq> colon"
  by (auto simp: is_digit_def colon_def)

lemma colon_not_digit [simp]: "\<not> is_digit colon"
  by (simp add: is_digit_def colon_def)

lemma newline_not_digit [simp]: "\<not> is_digit newline"
  by (simp add: is_digit_def newline_def)

lemma newline_is_space [simp]: "is_space newline"
  by (simp add: is_space_def newline_def)

lemma digit_not_space: "is_digit c \<Longrightarrow> \<not> is_space c"
  by (auto simp: is_digit_def is_space_def)

lemma colon_not_space [simp]: "\<not> is_space colon"
  by (simp add: is_space_def colon_def)

lemma is_digit_digit_char: "d < 10 \<Longrightarrow> is_digit (digit_char d)"
  by (simp add: is_digit_def digit_char_def)

lemma digit_val_digit_char: "d < 10 \<Longrightarrow> digit_val (digit_char d) = d"
  by (simp add: digit_val_def digit_char_def)

lemma digit_char_digit_val: "is_digit c \<Longrightarrow> digit_char (digit_val c) = c"
  by (simp add: digit_val_def digit_char_def is_digit_def)

lemma digit_val_less: "is_digit c \<Longrightarrow> digit_val c < 10"
  by (auto simp add: digit_val_def is_digit_def)

lemma greedy_counts_fixed: "greedy_counts n (Some n) m = (if n \<le> m then [n] else [])"
  by (auto simp: greedy_counts_def min_def)

lemma greedy_counts_1_2:
  "greedy_counts (Suc 0) (Some 2) m = (if 2 \<le> m then [2, Suc 0] else if 1 \<le> m then [Suc 0] else [])"
proof -
  have "[1 ..< Suc 2] = [1, 2::nat]" by (simp add: upt_rec)
  moreover have "[1 ..< Suc 1] = [1::nat]" by (simp add: upt_rec)
  moreover have "m < 1 \<Longrightarrow> [1 ..< Suc m] = []" by simp
  ultimately show ?thesis
    by (cases "2 \<le> m") (auto simp: greedy_counts_def min_def not_le)
qed

lemma le_leading:
  "k \<le> length (takeWhile P s) \<longleftrightarrow> k \<le> length s \<and> list_all P (take k s)"
proof (induction s arbitrary: k)
  case Nil
  then show ?case by simp
next
  case (Cons c s)
  then show ?case by (cases k) auto
qed

lemma rep_fixed:
  "match_here (Rep C n (Some n) # r) pos s =
     (if n \<le> length s \<and> list_all (in_cls C) (take n s)
      then map_option ((#) (take n s)) (match_here r (pos + n) (drop n s)) else None)"
  by (simp add: greedy_counts_fixed le_leading split: option.splits)

lemma rep_1_2:
  "match_here (Rep C (Suc 0) (Some 2) # r) pos s =
     (if 2 \<le> length s \<and> list_all (in_cls C) (take 2 s)
      then (case match_here r (pos + 2) (drop 2 s) of
              Some gs \<Rightarrow> Some (take 2 s # gs)
            | None \<Rightarrow> map_option ((#) (take 1 s)) (match_here r (pos + 1) (drop 1 s)))
      else if 1 \<le> length s \<and> list_all (in_cls C) (take 1 s)
      then map_option ((#) (take 1 s)) (match_here r (pos + 1) (drop 1 s)) else None)"
  by (simp add: greedy_counts_1_2 le_leading split: option.splits)

lemmas match_simps = rep_fixed rep_1_2

declare match_here.simps(6) [simp del]

lemma match_hhmmss:
  "ts = [] \<or> last ts \<noteq> newline \<Longrightarrow> (re_match pat_hhmmss ts \<noteq> None) = hh_mm_ss ts"
  by (cases ts rule: hh_mm_ss.cases)
     (auto simp add: re_match_def pat_hhmmss_def match_simps)

lemma match_mmss:
  "ts = [] \<or> last ts \<noteq> newline \<Longrightarrow> (re_match pat_mmss ts \<noteq> None) = (m_ss ts \<noteq> None)"
  by (cases ts rule: m_ss.cases)
     (auto simp add: re_match_def pat_mmss_def match_simps)

lemma match_find_hms:
  "match_here pat_find_hms pos s =
     (case h_mm_ss (take 8 s) of
        Some (h, m, sec) \<Rightarrow> Some [h, m, sec]
      | None \<Rightarrow> (case h_mm_ss (take 7 s) of Some (h, m, sec) \<Rightarrow> Some [h, m, sec] | None \<Rightarrow> None))"
  by (cases s rule: h_mm_ss.cases)
     (auto simp add: pat_find_hms_def match_simps)

lemma match_find_ms:
  "match_here pat_find_ms pos s =
     (case m_ss (take 5 s) of
        Some (m, sec) \<Rightarrow> Some [m, sec]
      | None \<Rightarrow> (case m_ss (take 4 s) of Some (m, sec) \<Rightarrow> Some [m, sec] | None \<Rightarrow> None))"
  by (cases s rule: m_ss.cases)
     (auto simp add: pat_find_ms_def match_simps)


lemma search_find_hms:
  "search_from pat_find_hms pos s =
     map_option (\<lambda>(h, m, sec). [h, m, sec]) (first_embedded h_mm_ss [8, 7] s)"
  by (induction s arbitrary: pos) (auto simp add: match_find_hms split: option.splits)

lemma search_find_ms:
  "search_from pat_find_ms pos s =
     map_option (\<lambda>(m, sec). [m, sec]) (first_embedded m_ss [5, 4] s)"
  by (induction s arbitrary: pos) (auto simp add: match_find_ms split: option.splits)

lemma strip_last: "strip s = [] \<or> \<not> is_space (last (strip s))"
proof (cases "dropWhile is_space (rev (dropWhile is_space s))")
  case Nil
  then show ?thesis by (simp add: strip_def)
next
  case (Cons c cs)
  then have "\<not> is_space c"
    by (metis hd_dropWhile list.sel(1) list.distinct(1))
  with Cons show ?thesis by (simp add: strip_def)
qed

lemma strip_no_newline: "strip s = [] \<or> last (strip s) \<noteq> newline"
  using strip_last [of s] by auto

lemma drop_leading_not_end:
  assumes "k < length (takeWhile is_digit s)"
  shows "drop k s \<noteq> [] \<and> drop k s \<noteq> [newline]"
proof -
  have "k < length s" using assms length_takeWhile_le [of is_digit s] by simp
  moreover have "is_digit (s ! k)" using assms
    by (metis nth_mem set_takeWhileD takeWhile_nth)
  ultimately have "hd (drop k s) = s ! k" "drop k s \<noteq> []"
    by (simp_all add: hd_drop_conv_nth)
  with \<open>is_digit (s ! k)\<close> show ?thesis by auto
qed

lemma in_cls_Digit [simp]: "in_cls Digit = is_digit"
  by (rule ext) simp

lemma first_some_not_none: "first_some f ks \<noteq> None \<Longrightarrow> \<exists>k \<in> set ks. f k \<noteq> None"
  by (induction ks) (auto split: option.splits)

lemma greedy_counts_unbounded:
  "lo \<le> n \<Longrightarrow> greedy_counts lo None n = n # rev [lo ..< n]"
  by (simp add: greedy_counts_def)

lemma set_greedy_counts_unbounded: "set (greedy_counts lo None n) = {lo .. n}"
  by (auto simp: greedy_counts_def)

lemma match_seconds_iff:
  "(re_match pat_seconds ts \<noteq> None) =
     (1 \<le> length (takeWhile is_digit ts) \<and>
      (dropWhile is_digit ts = [] \<or> dropWhile is_digit ts = [newline]))"
    (is "?L = ?R")
proof
  define n where "n = length (takeWhile is_digit ts)"
  define f where "f = (\<lambda>k. map_option ((#) (take k ts)) (match_here [Eol] (0 + k) (drop k ts)))"
  have re: "re_match pat_seconds ts = first_some f (greedy_counts (Suc 0) None n)"
    by (simp add: re_match_def pat_seconds_def match_here.simps(6) f_def n_def)
  have dn: "drop n ts = dropWhile is_digit ts"
    by (simp add: n_def dropWhile_eq_drop)
  {
    assume ?L
    then obtain k where k: "k \<in> set (greedy_counts (Suc 0) None n)" "f k \<noteq> None"
      using re first_some_not_none by metis
    then have kb: "1 \<le> k" "k \<le> n" by (simp_all add: set_greedy_counts_unbounded)
    have "\<not> k < n"
    proof
      assume "k < n"
      then have "drop k ts \<noteq> [] \<and> drop k ts \<noteq> [newline]"
        using drop_leading_not_end [of k ts] by (simp add: n_def)
      then show False using k(2) by (simp add: f_def)
    qed
    with kb have kn: "k = n" by simp
    from k(2) have "drop n ts = [] \<or> drop n ts = [newline]"
      unfolding kn f_def by (simp split: if_splits)
    then have "dropWhile is_digit ts = [] \<or> dropWhile is_digit ts = [newline]"
      unfolding dn .
    moreover have "1 \<le> length (takeWhile is_digit ts)"
      using kb kn by (simp add: n_def)
    ultimately show ?R by blast
  }
  {
    assume ?R
    then have n1: "Suc 0 \<le> n" and e: "drop n ts = [] \<or> drop n ts = [newline]"
      using dn by (auto simp: n_def)
    then have "f n \<noteq> None" by (auto simp: f_def)
    then have "first_some f (n # rev [Suc 0 ..< n]) \<noteq> None"
      by (auto split: option.splits)
    with n1 show ?L
      by (simp add: re greedy_counts_unbounded del: first_some.simps)
  }
qed

lemma match_seconds:
  assumes "ts = [] \<or> last ts \<noteq> newline"
  shows "(re_match pat_seconds ts \<noteq> None) = all_digits ts"
proof -
  have split_ts: "ts = takeWhile is_digit ts @ dropWhile is_digit ts" by simp
  show ?thesis
  proof
    assume "re_match pat_seconds ts \<noteq> None"
    then have "1 \<le> length (takeWhile is_digit ts) \<and>
      (dropWhile is_digit ts = [] \<or> dropWhile is_digit ts = [newline])"
      by (simp only: match_seconds_iff)
    then have n: "1 \<le> length (takeWhile is_digit ts)"
      and e: "dropWhile is_digit ts = [] \<or> dropWhile is_digit ts = [newline]"
      by blast+
    have "dropWhile is_digit ts \<noteq> [newline]"
    proof
      assume d: "dropWhile is_digit ts = [newline]"
      then have "ts = takeWhile is_digit ts @ [newline]" using split_ts by metis
      then have "ts \<noteq> [] \<and> last ts = newline" by (metis snoc_eq_iff_butlast)
      with assms show False by simp
    qed
    with e have "dropWhile is_digit ts = []" by simp
    then have "list_all is_digit ts" by (simp add: dropWhile_eq_Nil_conv list_all_iff)
    moreover from n have "ts \<noteq> []" by auto
    ultimately show "all_digits ts" by (simp add: all_digits_def)
  next
    assume "all_digits ts"
    then have "ts \<noteq> []" and a: "\<forall>x \<in> set ts. is_digit x"
      by (simp_all add: all_digits_def list_all_iff)
    then have tw: "takeWhile is_digit ts = ts" and "dropWhile is_digit ts = []"
      by simp_all
    moreover have "1 \<le> length (takeWhile is_digit ts)"
      unfolding tw using \<open>ts \<noteq> []\<close> by (cases ts) simp_all
    ultimately have "1 \<le> length (takeWhile is_digit ts) \<and>
      (dropWhile is_digit ts = [] \<or> dropWhile is_digit ts = [newline])"
      by blast
    then show "re_match pat_seconds ts \<noteq> None"
      by (simp only: match_seconds_iff)
  qed
qed


lemma str_nat_small: "n < 10 \<Longrightarrow> str_nat n = [digit_char n]"
  by (simp add: str_nat.simps)

lemma str_nat_large: "10 \<le> n \<Longrightarrow> str_nat n = str_nat (n div 10) @ [digit_char (n mod 10)]"
  by (subst str_nat.simps) simp

lemma limit_pos: "0 < int_max_str_digits" "2 \<le> int_max_str_digits"
  by (simp_all add: int_max_str_digits_def)

lemma length_str_nat_bound: "0 < k \<Longrightarrow> n < 10 ^ k \<Longrightarrow> length (str_nat n) \<le> k"
proof (induction k arbitrary: n)
  case 0
  then show ?case by simp
next
  case (Suc k)
  show ?case
  proof (cases "n < 10")
    case True
    then show ?thesis by (simp add: str_nat_small)
  next
    case False
    then have n: "10 \<le> n" by simp
    have k: "0 < k"
    proof (rule ccontr)
      assume "\<not> 0 < k"
      then have "k = 0" by simp
      with Suc.prems(2) False show False by simp
    qed
    have "n < 10 ^ k * 10" using Suc.prems(2) by (simp add: mult.commute)
    then have "n div 10 < 10 ^ k" by (rule less_mult_imp_div_less)
    then have "length (str_nat (n div 10)) \<le> k" using k by (rule Suc.IH [rotated])
    then show ?thesis by (simp add: str_nat_large [OF n])
  qed
qed

lemma digits_value_less: "list_all is_digit s \<Longrightarrow> digits_value s < 10 ^ length s"
proof (induction s rule: rev_induct)
  case Nil
  then show ?case by (simp add: digits_value_def)
next
  case (snoc c s)
  then have d: "digit_val c < 10" and ih: "digits_value s < 10 ^ length s"
    by (simp_all add: digit_val_less)
  define p :: nat where "p = 10 ^ length s"
  have "digits_value (s @ [c]) = 10 * digits_value s + digit_val c"
    by (simp add: digits_value_def)
  moreover have "10 * digits_value s + digit_val c < 10 * p"
    using d ih unfolding p_def [symmetric] by linarith
  ultimately show ?case by (simp add: p_def)
qed

lemma str_nat_within_limit:
  assumes "n < 10 ^ int_max_str_digits" "m \<le> n"
  shows "length (str_nat m) \<le> int_max_str_digits"
proof -
  have "m < 10 ^ int_max_str_digits" using assms by simp
  then show ?thesis using limit_pos(1) by (rule length_str_nat_bound [rotated])
qed

lemma fmt02d_nat:
  "length (str_nat n) \<le> int_max_str_digits \<Longrightarrow> fmt02d (int n) = Inr (pad2 (str_nat n))"
  by (simp add: fmt02d_def pad2_def)

lemma fmt02d_small: "n < 100 \<Longrightarrow> fmt02d (int n) = Inr (pad2 (str_nat n))"
proof (rule fmt02d_nat)
  assume "n < 100"
  then have "n < 10 ^ 2" by simp
  then have "length (str_nat n) \<le> 2" by (intro length_str_nat_bound) simp_all
  then show "length (str_nat n) \<le> int_max_str_digits" using limit_pos(2) by simp
qed

lemma digit_char_0: "digit_char 0 = CHR ''0''"
proof -
  have "(of_char (digit_char 0) :: nat) = of_char CHR ''0''"
    by (simp add: digit_char_def)
  then show ?thesis by (simp only: of_char_eq_iff)
qed

lemma pad2_digit: "is_digit a \<Longrightarrow> pad2 (str_nat (digit_val a)) = [CHR ''0'', a]"
  by (simp add: str_nat_small digit_val_less digit_char_digit_val pad2_def)

lemma pad2_two_digits:
  assumes "is_digit a" "is_digit b"
  shows "pad2 (str_nat (10 * digit_val a + digit_val b)) = [a, b]"
proof (cases "digit_val a = 0")
  case True
  then have "a = CHR ''0''"
    using digit_char_digit_val [OF assms(1)] by (simp add: digit_char_0)
  with True show ?thesis using pad2_digit [OF assms(2)] by simp
next
  case False
  let ?n = "10 * digit_val a + digit_val b"
  have b: "digit_val b < 10" and a: "digit_val a < 10"
    using assms by (simp_all add: digit_val_less)
  have "10 \<le> ?n" using False by simp
  moreover have "?n div 10 = digit_val a" "?n mod 10 = digit_val b" using b by simp_all
  ultimately have "str_nat ?n = [a, b]"
    using assms a by (simp add: str_nat_large str_nat_small digit_char_digit_val)
  then show ?thesis by (simp add: pad2_def)
qed

lemma digits_value_1: "digits_value [a] = digit_val a"
  by (simp add: digits_value_def)

lemma digits_value_2: "digits_value [a, b] = 10 * digit_val a + digit_val b"
  by (simp add: digits_value_def)

lemma py_int_1: "is_digit a \<Longrightarrow> py_int [a] = Inr (int (digit_val a))"
  by (simp add: py_int_def digits_value_1 int_max_str_digits_def)

lemma py_int_2:
  "is_digit a \<Longrightarrow> is_digit b \<Longrightarrow> py_int [a, b] = Inr (10 * int (digit_val a) + int (digit_val b))"
  by (simp add: py_int_def digits_value_2 int_max_str_digits_def)

lemma fmt_digit: "is_digit a \<Longrightarrow> fmt02d (int (digit_val a)) = Inr [CHR ''0'', a]"
proof -
  assume d: "is_digit a"
  then have "digit_val a < 100" using digit_val_less [of a] by simp
  then show ?thesis using d by (simp only: fmt02d_small pad2_digit)
qed

lemma fmt_two_digits:
  "is_digit a \<Longrightarrow> is_digit b \<Longrightarrow> fmt02d (10 * int (digit_val a) + int (digit_val b)) = Inr [a, b]"
proof -
  assume d: "is_digit a" "is_digit b"
  have "10 * int (digit_val a) + int (digit_val b) = int (10 * digit_val a + digit_val b)"
    by simp
  moreover have "10 * digit_val a + digit_val b < 100"
    using d digit_val_less [of a] digit_val_less [of b] by simp
  ultimately show ?thesis using d by (simp only: fmt02d_small pad2_two_digits)
qed

lemma split_on_m_ss: "m_ss ts = Some (m, s) \<Longrightarrow> split_on colon ts = [m, s]"
  by (cases ts rule: m_ss.cases) (auto simp: is_digit_not_colon split: if_splits)

lemma first_embedded_shape:
  "first_embedded shape lens t = Some r \<Longrightarrow> \<exists>w. shape w = Some r"
proof (induction t)
  case Nil
  then show ?case by simp
next
  case (Cons c t)
  show ?case
  proof (cases "first_some (\<lambda>n. shape (take n (c # t))) lens")
    case None
    with Cons show ?thesis by simp
  next
    case (Some w)
    with Cons.prems have "first_some (\<lambda>n. shape (take n (c # t))) lens = Some r" by simp
    then show ?thesis
      by (induction lens) (auto split: option.splits)
  qed
qed

lemma m_ss_format:
  assumes "m_ss w = Some (m, s)"
  shows "fmt_mm_ss (Inr m) (Inr s) = Inr (''00:'' @ pad2 m @ [colon] @ s)"
  using assms
  by (cases w rule: m_ss.cases)
     (auto simp: fmt_mm_ss_def bnd_def py_int_1 py_int_2 fmt_digit fmt_two_digits pad2_def
           split: if_splits)

lemma h_mm_ss_format:
  assumes "h_mm_ss w = Some (h, m, s)"
  shows "fmt_hh_mm_ss (Inr h) (Inr m) (Inr s) = Inr (pad2 h @ [colon] @ pad2 m @ [colon] @ pad2 s)"
  using assms
  by (cases w rule: h_mm_ss.cases)
     (auto simp: fmt_hh_mm_ss_def bnd_def py_int_1 py_int_2 fmt_digit fmt_two_digits pad2_def
           split: if_splits)

lemma bnd_Inr: "bnd (Inr v) f = f v"
  by (simp add: bnd_def)

lemma seconds_format:
  assumes "n < 10 ^ int_max_str_digits"
  shows "seconds_to_hhmmss (int n) =
     Inr (pad2 (str_nat (n div 3600)) @ [colon] @ pad2 (str_nat ((n mod 3600) div 60)) @ [colon] @
          pad2 (str_nat (n mod 60)))"
proof -
  have eq: "int n div 3600 = int (n div 3600)" "int n mod 3600 div 60 = int (n mod 3600 div 60)"
    "int n mod 60 = int (n mod 60)"
    by (simp_all add: zdiv_int zmod_int)
  have "n div 3600 \<le> n" by simp
  then have h: "fmt02d (int (n div 3600)) = Inr (pad2 (str_nat (n div 3600)))"
    by (intro fmt02d_nat str_nat_within_limit [OF assms])
  have "n mod 3600 div 60 < 60" by simp
  then have "n mod 3600 div 60 < 100" by linarith
  then have m: "fmt02d (int (n mod 3600 div 60)) = Inr (pad2 (str_nat (n mod 3600 div 60)))"
    by (rule fmt02d_small)
  have "n mod 60 < 100" using mod_less_divisor [of 60 n] by linarith
  then have s: "fmt02d (int (n mod 60)) = Inr (pad2 (str_nat (n mod 60)))"
    by (rule fmt02d_small)
  show ?thesis
    by (simp only: seconds_to_hhmmss_def Let_def eq h m s bnd_Inr)
qed


lemma index_two: "index [a, b] 0 = Inr a" "index [a, b] (Suc 0) = Inr b"
  by (simp_all add: index_def)

lemma group_three:
  "group_of [a, b, c] (Suc 0) = Inr a" "group_of [a, b, c] 2 = Inr b" "group_of [a, b, c] 3 = Inr c"
  by (simp_all add: group_of_def index_def)

lemma group_two: "group_of [a, b] (Suc 0) = Inr a" "group_of [a, b] 2 = Inr b"
  by (simp_all add: group_of_def index_def)

lemma py_int_all_digits:
  "all_digits t \<Longrightarrow> length t \<le> int_max_str_digits \<Longrightarrow> py_int t = Inr (int (digits_value t))"
  by (simp add: py_int_def all_digits_def)

lemma py_int_over_limit:
  "over_limit t \<Longrightarrow>
   py_int t = Inl (ValueError (''Exceeds the limit ('' @ str_nat int_max_str_digits @
                               '' digits) for integer string conversion: value has '' @
                               str_nat (length t) @
                               '' digits; use sys.set_int_max_str_digits() to increase the limit''))"
  by (simp add: py_int_def all_digits_def over_limit_def)

lemma seconds_rule:
  assumes "all_digits t" "\<not> over_limit t"
  shows "bnd (py_int t) seconds_to_hhmmss =
     Inr (pad2 (str_nat (digits_value t div 3600)) @ [colon] @
          pad2 (str_nat ((digits_value t mod 3600) div 60)) @ [colon] @
          pad2 (str_nat (digits_value t mod 60)))"
proof -
  have len: "length t \<le> int_max_str_digits"
    using assms by (simp add: over_limit_def)
  have "digits_value t < 10 ^ length t"
    using assms(1) by (simp add: all_digits_def digits_value_less)
  also have "(10::nat) ^ length t \<le> 10 ^ int_max_str_digits"
    using len by (intro power_increasing) simp_all
  finally have "digits_value t < 10 ^ int_max_str_digits" .
  then show ?thesis
    by (simp only: py_int_all_digits [OF assms(1) len] bnd_Inr seconds_format)
qed

lemma parse_refines:
  assumes lim: "\<not> over_limit (strip raw)"
  shows "parse_timestamp_to_hhmmss raw = Inr (normalize_spec raw)"
proof -
  define ts where "ts = strip raw"
  have nn: "ts = [] \<or> last ts \<noteq> newline"
    unfolding ts_def by (rule strip_no_newline)
  have conds:
    "(re_match pat_hhmmss ts = None) = (\<not> hh_mm_ss ts)"
    "(re_match pat_mmss ts = None) = (m_ss ts = None)"
    "(re_match pat_seconds ts = None) = (\<not> all_digits ts)"
    "(\<exists>y. re_match pat_hhmmss ts = Some y) = hh_mm_ss ts"
    "(\<exists>y. re_match pat_mmss ts = Some y) = (m_ss ts \<noteq> None)"
    "(\<exists>y. re_match pat_seconds ts = Some y) = all_digits ts"
    using match_hhmmss [OF nn] match_mmss [OF nn] match_seconds [OF nn] by auto
  show ?thesis
  proof (cases "hh_mm_ss ts")
    case True
    then show ?thesis
      by (simp add: parse_timestamp_to_hhmmss_def normalize_spec_def Let_def ts_def [symmetric] conds)
  next
    case r1: False
    show ?thesis
    proof (cases "m_ss ts")
      case (Some ms)
      obtain m s where ms: "ms = (m, s)" by (cases ms)
      have sp: "split_on colon ts = [m, s]"
        using Some ms by (simp add: split_on_m_ss)
      have "parse_timestamp_to_hhmmss raw = fmt_mm_ss (Inr m) (Inr s)"
        using r1 Some
        by (simp add: parse_timestamp_to_hhmmss_def Let_def ts_def [symmetric] conds sp index_two)
      also have "\<dots> = Inr (''00:'' @ pad2 m @ [colon] @ s)"
        using Some ms by (simp only: m_ss_format)
      also have "\<dots> = Inr (normalize_spec raw)"
        using r1 Some ms by (simp add: normalize_spec_def Let_def ts_def [symmetric])
      finally show ?thesis .
    next
      case r2: None
      show ?thesis
      proof (cases "all_digits ts")
        case True
        have "parse_timestamp_to_hhmmss raw = bnd (py_int ts) seconds_to_hhmmss"
          using r1 r2 True
          by (simp add: parse_timestamp_to_hhmmss_def Let_def ts_def [symmetric] conds)
        also have "\<dots> = Inr (normalize_spec raw)"
          using r1 r2 True lim
          by (simp add: seconds_rule normalize_spec_def Let_def ts_def [symmetric])
        finally show ?thesis .
      next
        case r3: False
        show ?thesis
        proof (cases "first_embedded h_mm_ss [8, 7] ts")
          case (Some hms)
          obtain h m s where hms: "hms = (h, m, s)" by (cases hms)
          obtain w where w: "h_mm_ss w = Some (h, m, s)"
            using first_embedded_shape [of h_mm_ss "[8, 7]" ts hms] Some hms by auto
          have "parse_timestamp_to_hhmmss raw = fmt_hh_mm_ss (Inr h) (Inr m) (Inr s)"
            using r1 r2 r3 Some hms
            by (simp add: parse_timestamp_to_hhmmss_def Let_def ts_def [symmetric] conds
                re_search_def search_find_hms group_three)
          also have "\<dots> = Inr (pad2 h @ [colon] @ pad2 m @ [colon] @ pad2 s)"
            using w by (simp only: h_mm_ss_format)
          also have "\<dots> = Inr (normalize_spec raw)"
            using r1 r2 r3 Some hms by (simp add: normalize_spec_def Let_def ts_def [symmetric])
          finally show ?thesis .
        next
          case r4: None
          show ?thesis
          proof (cases "first_embedded m_ss [5, 4] ts")
            case (Some ms)
            obtain m s where ms: "ms = (m, s)" by (cases ms)
            obtain w where w: "m_ss w = Some (m, s)"
              using first_embedded_shape [of m_ss "[5, 4]" ts ms] Some ms by auto
            have "parse_timestamp_to_hhmmss raw = fmt_mm_ss (Inr m) (Inr s)"
              using r1 r2 r3 r4 Some ms
              by (simp add: parse_timestamp_to_hhmmss_def Let_def ts_def [symmetric] conds
                  re_search_def search_find_hms search_find_ms group_two)
            also have "\<dots> = Inr (''00:'' @ pad2 m @ [colon] @ s)"
              using w by (simp only: m_ss_format)
            also have "\<dots> = Inr (normalize_spec raw)"
              using r1 r2 r3 r4 Some ms by (simp add: normalize_spec_def Let_def ts_def [symmetric])
            finally show ?thesis .
          next
            case None
            then show ?thesis
              using r1 r2 r3 r4
              by (simp add: parse_timestamp_to_hhmmss_def normalize_spec_def Let_def ts_def [symmetric]
                  conds re_search_def search_find_hms search_find_ms)
          qed
        qed
      qed
    qed
  qed
qed

lemma str_nat_digits: "list_all is_digit (str_nat n) \<and> str_nat n \<noteq> []"
proof (induction n rule: str_nat.induct)
  case (1 n)
  show ?case
  proof (cases "n < 10")
    case True
    then show ?thesis by (simp add: str_nat_small is_digit_digit_char)
  next
    case False
    then show ?thesis using 1 by (simp add: str_nat_large is_digit_digit_char)
  qed
qed

lemma digits_value_snoc: "digits_value (s @ [c]) = 10 * digits_value s + digit_val c"
  by (simp add: digits_value_def)

lemma digits_value_str_nat: "digits_value (str_nat n) = n"
proof (induction n rule: str_nat.induct)
  case (1 n)
  show ?case
  proof (cases "n < 10")
    case True
    then show ?thesis by (simp add: str_nat_small digits_value_1 digit_val_digit_char)
  next
    case False
    then show ?thesis
      using 1 by (simp add: str_nat_large digits_value_snoc digit_val_digit_char)
  qed
qed

lemma digit_val_zero: "digit_val CHR ''0'' = 0"
  by (simp add: digit_val_def)

lemma is_digit_zero: "is_digit CHR ''0''"
  by (simp add: is_digit_def)

lemma foldl_zeros: "foldl (\<lambda>a c. 10 * a + digit_val c) 0 (replicate k CHR ''0'') = 0"
  by (induction k) (simp_all add: digit_val_zero)

lemma digits_value_pad2: "digits_value (pad2 s) = digits_value s"
  by (simp add: pad2_def digits_value_def foldl_zeros)

lemma pad2_digits: "list_all is_digit s \<Longrightarrow> list_all is_digit (pad2 s)"
  by (auto simp add: pad2_def list_all_iff is_digit_zero)

lemma length_pad2: "length (pad2 s) = max 2 (length s)"
  by (simp add: pad2_def)

lemma length_str_nat_small: "n < 100 \<Longrightarrow> length (str_nat n) \<le> 2"
proof (cases "n < 10")
  case True
  then show ?thesis by (simp add: str_nat_small)
next
  case False
  assume "n < 100"
  then have "n div 10 < 10" by simp
  then have "str_nat (n div 10) = [digit_char (n div 10)]" by (rule str_nat_small)
  moreover have "str_nat n = str_nat (n div 10) @ [digit_char (n mod 10)]"
    using False by (intro str_nat_large) simp
  ultimately show ?thesis by simp
qed

lemma length_str_nat_large: "100 \<le> n \<Longrightarrow> 2 < length (str_nat n)"
proof -
  assume n: "100 \<le> n"
  then have "10 \<le> n div 10" by simp
  then have "str_nat (n div 10) = str_nat (n div 10 div 10) @ [digit_char (n div 10 mod 10)]"
    by (rule str_nat_large)
  moreover have "str_nat (n div 10 div 10) \<noteq> []" using str_nat_digits by simp
  moreover have "str_nat n = str_nat (n div 10) @ [digit_char (n mod 10)]"
    using n by (intro str_nat_large) simp
  ultimately show ?thesis by (cases "str_nat (n div 10 div 10)") simp_all
qed

lemma split_on_no_sep: "sep \<notin> set f \<Longrightarrow> split_on sep f = [f]"
  by (induction f) auto

lemma split_on_field: "sep \<notin> set f \<Longrightarrow> split_on sep (f @ sep # rest) = f # split_on sep rest"
  by (induction f) auto

lemma digits_no_colon: "list_all is_digit f \<Longrightarrow> colon \<notin> set f"
  by (auto simp: list_all_iff)

lemma split_on_three:
  "list_all is_digit h \<Longrightarrow> list_all is_digit m \<Longrightarrow> list_all is_digit s \<Longrightarrow>
   split_on colon (h @ colon # m @ colon # s) = [h, m, s]"
  by (simp add: split_on_field split_on_no_sep digits_no_colon)

lemma dropWhile_id: "xs = [] \<or> \<not> P (hd xs) \<Longrightarrow> dropWhile P xs = xs"
  by (cases xs) auto

lemma strip_id:
  assumes "t \<noteq> []" "\<not> is_space (hd t)" "\<not> is_space (last t)"
  shows "strip t = t"
proof -
  have "dropWhile is_space t = t" using assms by (simp add: dropWhile_id)
  moreover have "dropWhile is_space (rev t) = rev t"
    using assms by (simp add: dropWhile_id hd_rev)
  ultimately show ?thesis by (simp add: strip_def)
qed

lemma strip_all_digits: "all_digits t \<Longrightarrow> strip t = t"
proof -
  assume a: "all_digits t"
  then have "t \<noteq> []" "is_digit (hd t)" "is_digit (last t)"
    by (auto simp: all_digits_def list_all_iff)
  then show ?thesis by (simp add: strip_id digit_not_space)
qed


lemma all_digits_no_colon_shape: "all_digits t \<Longrightarrow> \<not> hh_mm_ss t \<and> m_ss t = None"
proof
  assume a: "all_digits t"
  show "\<not> hh_mm_ss t"
    using a by (cases t rule: hh_mm_ss.cases) (auto simp: all_digits_def)
  show "m_ss t = None"
    using a by (cases t rule: m_ss.cases) (auto simp: all_digits_def)
qed

lemma m_ss_fields:
  "m_ss w = Some (m, s) \<Longrightarrow> fields_ok ''00'' (pad2 m) s"
  by (cases w rule: m_ss.cases)
     (auto simp: fields_ok_def all_digits_def pad2_def is_digit_zero split: if_splits)

lemma h_mm_ss_fields:
  "h_mm_ss w = Some (h, m, s) \<Longrightarrow> fields_ok (pad2 h) (pad2 m) (pad2 s) \<and> length (pad2 h) = 2"
  by (cases w rule: h_mm_ss.cases)
     (auto simp: fields_ok_def all_digits_def pad2_def is_digit_zero split: if_splits)

lemma hh_mm_ss_fields:
  "hh_mm_ss t \<Longrightarrow> \<exists>h m s. t = h @ colon # m @ colon # s \<and> fields_ok h m s \<and> length h = 2"
proof (cases t rule: hh_mm_ss.cases)
  case (1 a b p c d q e f)
  assume "hh_mm_ss t"
  with 1 have "t = [a, b] @ colon # [c, d] @ colon # [e, f] \<and> fields_ok [a, b] [c, d] [e, f] \<and>
    length [a, b] = 2"
    by (simp add: fields_ok_def all_digits_def)
  then show ?thesis by blast
qed auto

lemma pad2_str_nat_fields:
  "all_digits (pad2 (str_nat n))" "2 \<le> length (pad2 (str_nat n))"
  "n < 100 \<Longrightarrow> length (pad2 (str_nat n)) = 2"
  "100 \<le> n \<Longrightarrow> 2 < length (pad2 (str_nat n))"
  "digits_value (pad2 (str_nat n)) = n"
proof -
  show "all_digits (pad2 (str_nat n))"
    using str_nat_digits [of n] by (simp add: all_digits_def pad2_digits) (simp add: pad2_def)
  show "2 \<le> length (pad2 (str_nat n))" by (simp add: length_pad2)
  show "n < 100 \<Longrightarrow> length (pad2 (str_nat n)) = 2"
    using length_str_nat_small [of n] by (simp add: length_pad2)
  show "100 \<le> n \<Longrightarrow> 2 < length (pad2 (str_nat n))"
    using length_str_nat_large [of n] by (simp add: length_pad2)
  show "digits_value (pad2 (str_nat n)) = n"
    by (simp add: digits_value_pad2 digits_value_str_nat)
qed

lemma hours_100: "(100 \<le> (n::nat) div 3600) = (360000 \<le> n)"
  using less_eq_div_iff_mult_less_eq [of 3600 100 n] by simp

lemma hms_sum: "(n::nat) div 3600 * 3600 + n mod 3600 div 60 * 60 + n mod 60 = n"
proof -
  have "n mod 3600 mod 60 = n mod 60"
    by (rule mod_mod_cancel) simp
  then have "n mod 3600 div 60 * 60 + n mod 60 = n mod 3600"
    using div_mult_mod_eq [of "n mod 3600" 60] by simp
  then have "n div 3600 * 3600 + n mod 3600 div 60 * 60 + n mod 60 = n div 3600 * 3600 + n mod 3600"
    by (simp only: add.assoc)
  also have "\<dots> = n" by (rule div_mult_mod_eq)
  finally show ?thesis .
qed

lemma normalize_fields:
  "\<exists>h m s. normalize_spec raw = h @ colon # m @ colon # s \<and> fields_ok h m s \<and>
     (2 < length h \<longrightarrow> all_digits (strip raw) \<and> 360000 \<le> digits_value (strip raw)) \<and>
     (all_digits (strip raw) \<longrightarrow>
        digits_value m \<le> 59 \<and> digits_value s \<le> 59 \<and>
        digits_value h * 3600 + digits_value m * 60 + digits_value s = digits_value (strip raw) \<and>
        (360000 \<le> digits_value (strip raw) \<longrightarrow> 2 < length h))"
proof -
  define t where "t = strip raw"
  show ?thesis
  proof (cases "all_digits t")
    case True
    define n where "n = digits_value t"
    let ?h = "pad2 (str_nat (n div 3600))"
    let ?m = "pad2 (str_nat ((n mod 3600) div 60))"
    let ?s = "pad2 (str_nat (n mod 60))"
    have out: "normalize_spec raw = ?h @ colon # ?m @ colon # ?s"
      using True all_digits_no_colon_shape [OF True]
      by (simp add: normalize_spec_def Let_def t_def [symmetric] n_def)
    have m: "(n mod 3600) div 60 < 60" and s: "n mod 60 < 60" by simp_all
    have ok: "fields_ok ?h ?m ?s"
      using m s by (simp add: fields_ok_def pad2_str_nat_fields)
    have wide: "2 < length ?h \<longrightarrow> 360000 \<le> n"
    proof
      assume "2 < length ?h"
      then have "\<not> n div 3600 < 100" using pad2_str_nat_fields(3) [of "n div 3600"] by auto
      then have "100 \<le> n div 3600" by (simp only: not_less)
      then show "360000 \<le> n" by (simp only: hours_100)
    qed
    have wide': "360000 \<le> n \<longrightarrow> 2 < length ?h"
    proof
      assume "360000 \<le> n"
      then have "100 \<le> n div 3600" by (simp only: hours_100)
      then show "2 < length ?h" by (rule pad2_str_nat_fields(4))
    qed
    have "n div 3600 * 3600 + n mod 3600 div 60 * 60 + n mod 60 = n"
      by (rule hms_sum)
    then have sum: "digits_value ?h * 3600 + digits_value ?m * 60 + digits_value ?s = n"
      by (simp only: pad2_str_nat_fields(5))
    have rng: "digits_value ?m \<le> 59" "digits_value ?s \<le> 59"
      unfolding pad2_str_nat_fields(5) using m s by simp_all
    have "normalize_spec raw = ?h @ colon # ?m @ colon # ?s \<and> fields_ok ?h ?m ?s \<and>
     (2 < length ?h \<longrightarrow> all_digits t \<and> 360000 \<le> n) \<and>
     (all_digits t \<longrightarrow>
        digits_value ?m \<le> 59 \<and> digits_value ?s \<le> 59 \<and>
        digits_value ?h * 3600 + digits_value ?m * 60 + digits_value ?s = n \<and>
        (360000 \<le> n \<longrightarrow> 2 < length ?h))"
      using out ok wide wide' sum rng True by (intro conjI impI) (assumption | blast)+
    then show ?thesis
      unfolding t_def n_def by (intro exI)
  next
    case nd: False
    have "\<exists>h m s. normalize_spec raw = h @ colon # m @ colon # s \<and> fields_ok h m s \<and> length h = 2"
    proof (cases "hh_mm_ss t")
      case True
      then have "normalize_spec raw = t"
        by (simp add: normalize_spec_def Let_def t_def [symmetric])
      then show ?thesis
        using hh_mm_ss_fields [OF True] by simp
    next
      case r1: False
      show ?thesis
      proof (cases "m_ss t")
        case (Some ms)
        obtain m s where ms: "ms = (m, s)" by (cases ms)
        have "normalize_spec raw = ''00'' @ colon # pad2 m @ colon # s"
          using r1 Some ms by (simp add: normalize_spec_def Let_def t_def [symmetric] colon_def)
        moreover have "fields_ok ''00'' (pad2 m) s" using Some ms m_ss_fields by simp
        moreover have "length ''00'' = 2" by simp
        ultimately show ?thesis by (intro exI conjI)
      next
        case r2: None
        show ?thesis
        proof (cases "first_embedded h_mm_ss [8, 7] t")
          case (Some hms)
          obtain h m s where hms: "hms = (h, m, s)" by (cases hms)
          obtain w where w: "h_mm_ss w = Some (h, m, s)"
            using first_embedded_shape [of h_mm_ss "[8, 7]" t hms] Some hms by auto
          have "normalize_spec raw = pad2 h @ colon # pad2 m @ colon # pad2 s"
            using r1 r2 nd Some hms by (simp add: normalize_spec_def Let_def t_def [symmetric])
          then show ?thesis using h_mm_ss_fields [OF w] by blast
        next
          case r4: None
          show ?thesis
          proof (cases "first_embedded m_ss [5, 4] t")
            case (Some ms)
            obtain m s where ms: "ms = (m, s)" by (cases ms)
            obtain w where w: "m_ss w = Some (m, s)"
              using first_embedded_shape [of m_ss "[5, 4]" t ms] Some ms by auto
            have "normalize_spec raw = ''00'' @ colon # pad2 m @ colon # s"
              using r1 r2 r4 nd Some ms
              by (simp add: normalize_spec_def Let_def t_def [symmetric] colon_def)
            moreover have "fields_ok ''00'' (pad2 m) s" using w m_ss_fields by simp
            moreover have "length ''00'' = 2" by simp
        ultimately show ?thesis by (intro exI conjI)
          next
            case None
            have "normalize_spec raw = ''00'' @ colon # ''00'' @ colon # ''00''"
              using r1 r2 r4 nd None
              by (simp add: normalize_spec_def Let_def t_def [symmetric] colon_def)
            moreover have "fields_ok ''00'' ''00'' ''00''"
              by (simp add: fields_ok_def all_digits_def is_digit_zero)
            moreover have "length ''00'' = 2" by simp
        ultimately show ?thesis by (intro exI conjI)
          qed
        qed
      qed
    qed
    then obtain h m s where
      "normalize_spec raw = h @ colon # m @ colon # s" "fields_ok h m s" "length h = 2"
      by blast
    then have "normalize_spec raw = h @ colon # m @ colon # s \<and> fields_ok h m s \<and>
     (2 < length h \<longrightarrow> all_digits t \<and> 360000 \<le> digits_value t) \<and>
     (all_digits t \<longrightarrow>
        digits_value m \<le> 59 \<and> digits_value s \<le> 59 \<and>
        digits_value h * 3600 + digits_value m * 60 + digits_value s = digits_value t \<and>
        (360000 \<le> digits_value t \<longrightarrow> 2 < length h))"
      using nd by simp
    then show ?thesis unfolding t_def by (intro exI)
  qed
qed

lemma set_strip: "set (strip raw) \<subseteq> set raw"
proof
  fix x
  assume "x \<in> set (strip raw)"
  then have "x \<in> set (dropWhile is_space (rev (dropWhile is_space raw)))"
    by (simp add: strip_def)
  then have "x \<in> set (rev (dropWhile is_space raw))" by (rule set_dropWhileD)
  then have "x \<in> set (dropWhile is_space raw)" by simp
  then show "x \<in> set raw" by (rule set_dropWhileD)
qed

lemma first_some_Some: "first_some f ks = Some r \<Longrightarrow> \<exists>k \<in> set ks. f k = Some r"
  by (induction ks) (auto split: option.splits)

lemma first_embedded_sub:
  "first_embedded shape lens t = Some r \<Longrightarrow> \<exists>w. shape w = Some r \<and> set w \<subseteq> set t"
proof (induction t)
  case Nil
  then show ?case by simp
next
  case (Cons c t)
  show ?case
  proof (cases "first_some (\<lambda>n. shape (take n (c # t))) lens")
    case None
    with Cons show ?thesis by auto
  next
    case (Some w)
    with Cons.prems have "first_some (\<lambda>n. shape (take n (c # t))) lens = Some r" by simp
    then obtain n where "shape (take n (c # t)) = Some r"
      using first_some_Some by fastforce
    moreover have "set (take n (c # t)) \<subseteq> set (c # t)" by (rule set_take_subset)
    ultimately show ?thesis by blast
  qed
qed

lemma m_ss_has_digit: "m_ss w = Some r \<Longrightarrow> \<exists>c \<in> set w. is_digit c"
  by (cases w rule: m_ss.cases) (auto split: if_splits)

lemma h_mm_ss_has_digit: "h_mm_ss w = Some r \<Longrightarrow> \<exists>c \<in> set w. is_digit c"
  by (cases w rule: h_mm_ss.cases) (auto split: if_splits)

lemma hh_mm_ss_has_digit: "hh_mm_ss w \<Longrightarrow> \<exists>c \<in> set w. is_digit c"
  by (cases w rule: hh_mm_ss.cases) auto

lemma recognized_cases:
  assumes "recognized t"
  shows "hh_mm_ss t \<or> m_ss t \<noteq> None \<or> all_digits t
    \<or> first_embedded h_mm_ss [8, 7] t \<noteq> None \<or> first_embedded m_ss [5, 4] t \<noteq> None"
  using assms by (simp only: recognized_def)


lemma first_embedded_has_digit:
  assumes "first_embedded shape lens t \<noteq> None"
    and "\<And>w r. shape w = Some r \<Longrightarrow> \<exists>c \<in> set w. is_digit c"
  shows "\<exists>c \<in> set t. is_digit c"
proof -
  from assms(1) obtain r where "first_embedded shape lens t = Some r" by blast
  then obtain w where w: "shape w = Some r" "set w \<subseteq> set t"
    using first_embedded_sub [of shape lens t r] by blast
  from assms(2) [OF w(1)] obtain c where "c \<in> set w" "is_digit c" by blast
  with w(2) show ?thesis by blast
qed

lemma all_digits_has_digit: "all_digits t \<Longrightarrow> \<exists>c \<in> set t. is_digit c"
  by (cases t) (simp_all add: all_digits_def)

lemma recognized_has_digit:
  assumes "recognized t"
  shows "\<exists>c \<in> set t. is_digit c"
  using recognized_cases [OF assms]
proof (elim disjE)
  assume "hh_mm_ss t"
  then show ?thesis by (rule hh_mm_ss_has_digit)
next
  assume "m_ss t \<noteq> None"
  then obtain r where "m_ss t = Some r" by blast
  then show ?thesis by (rule m_ss_has_digit)
next
  assume "all_digits t"
  then show ?thesis by (rule all_digits_has_digit)
next
  assume "first_embedded h_mm_ss [8, 7] t \<noteq> None"
  then show ?thesis by (rule first_embedded_has_digit) (rule h_mm_ss_has_digit)
next
  assume "first_embedded m_ss [5, 4] t \<noteq> None"
  then show ?thesis by (rule first_embedded_has_digit) (rule m_ss_has_digit)
qed

lemma unrecognized_default: "\<not> recognized (strip raw) \<Longrightarrow> normalize_spec raw = ''00:00:00''"
  by (simp add: normalize_spec_def recognized_def Let_def split: option.splits)

lemma no_digit_unrecognized:
  assumes "list_all (\<lambda>c. \<not> is_digit c) raw"
  shows "\<not> recognized (strip raw)"
proof
  assume "recognized (strip raw)"
  then obtain c where "c \<in> set (strip raw)" "is_digit c"
    using recognized_has_digit by blast
  then have "c \<in> set raw" using set_strip by blast
  with assms \<open>is_digit c\<close> show False by (simp add: list_all_iff)
qed

lemma hours_field_eq: "list_all is_digit h \<Longrightarrow> hours_field (h @ colon # rest) = h"
  by (simp add: hours_field_def takeWhile_append2 digits_no_colon list_all_iff is_digit_not_colon)

lemma fields_split:
  "fields_ok h m s \<Longrightarrow> split_on colon (h @ colon # m @ colon # s) = [h, m, s]"
  by (simp add: fields_ok_def all_digits_def split_on_three)

lemma py_int_fields:
  "fields_ok h m s \<Longrightarrow> length h \<le> int_max_str_digits \<Longrightarrow>
   py_int h = Inr (int (digits_value h)) \<and> py_int m = Inr (int (digits_value m)) \<and>
   py_int s = Inr (int (digits_value s))"
  using limit_pos(2) by (simp add: fields_ok_def py_int_all_digits)

lemma parse_over_limit:
  assumes "over_limit (strip raw)"
  shows "parse_timestamp_to_hhmmss raw =
     Inl (ValueError (''Exceeds the limit ('' @ str_nat int_max_str_digits @
                      '' digits) for integer string conversion: value has '' @
                      str_nat (length (strip raw)) @
                      '' digits; use sys.set_int_max_str_digits() to increase the limit''))"
proof -
  define ts where "ts = strip raw"
  have ad: "all_digits ts" using assms by (simp add: over_limit_def ts_def)
  have nn: "ts = [] \<or> last ts \<noteq> newline"
    unfolding ts_def by (rule strip_no_newline)
  have shape: "\<not> hh_mm_ss ts" "m_ss ts = None"
    using all_digits_no_colon_shape [OF ad] by simp_all
  have conds:
    "re_match pat_hhmmss ts = None" "re_match pat_mmss ts = None"
    "\<exists>y. re_match pat_seconds ts = Some y"
    using match_hhmmss [OF nn] match_mmss [OF nn] match_seconds [OF nn] shape ad by auto
  have "parse_timestamp_to_hhmmss raw = bnd (py_int ts) seconds_to_hhmmss"
    using conds by (auto simp add: parse_timestamp_to_hhmmss_def Let_def ts_def [symmetric])
  then show ?thesis
    using assms by (simp add: py_int_over_limit ts_def bnd_def)
qed

lemma within_limit: "length t \<le> int_max_str_digits \<Longrightarrow> \<not> over_limit t"
  by (simp add: over_limit_def)


lemma char_of_eqI: "(of_char c :: nat) = n \<Longrightarrow> char_of n = c"
  by auto

lemma str_nat_347: "str_nat 347 = ''347''"
proof -
  have "digit_char 3 = CHR ''3''" "digit_char 4 = CHR ''4''" "digit_char 7 = CHR ''7''"
    by (simp_all add: digit_char_def char_of_eqI)
  then show ?thesis
    by (simp add: str_nat.simps [of 347] str_nat.simps [of 34] str_nat.simps [of 3])
qed

lemma digit_chars:
  "digit_char 0 = CHR ''0''" "digit_char (Suc 0) = CHR ''1''"
  by (simp_all add: digit_char_def char_of_eqI)

lemma str_nat_100: "str_nat 100 = ''100''" and str_nat_0: "str_nat 0 = ''0''"
  by (simp_all add: str_nat.simps [of 100] str_nat.simps [of 10] str_nat.simps [of "Suc 0"]
      str_nat.simps [of 0] digit_chars)

lemma overflow_example: "parse_timestamp_to_hhmmss ''360000'' = Inr ''100:00:00''"
proof -
  have ad: "all_digits ''360000''" by (simp add: all_digits_def is_digit_def)
  have st: "strip ''360000'' = ''360000''" by (rule strip_all_digits [OF ad])
  have dv: "digits_value ''360000'' = 360000" by (simp add: digits_value_def digit_val_def)
  have "normalize_spec ''360000'' =
      pad2 (str_nat 100) @ [colon] @ pad2 (str_nat 0) @ [colon] @ pad2 (str_nat 0)"
    using ad all_digits_no_colon_shape [OF ad]
    by (simp add: normalize_spec_def Let_def st dv)
  moreover have "\<not> over_limit (strip ''360000'')"
    by (simp add: st over_limit_def int_max_str_digits_def)
  ultimately show ?thesis
    by (simp add: parse_refines str_nat_100 str_nat_0 pad2_def colon_def)
qed

lemma overflow_hours: "hours_field ''100:00:00'' = ''100''"
  by (simp add: hours_field_def colon_def)

lemma str_nat_limit: "str_nat 4300 = ''4300''" "str_nat 4301 = ''4301''"
proof -
  have d: "digit_char 0 = CHR ''0''" "digit_char (Suc 0) = CHR ''1''"
    "digit_char 3 = CHR ''3''" "digit_char 4 = CHR ''4''"
    by (simp_all add: digit_char_def char_of_eqI)
  show "str_nat 4300 = ''4300''" "str_nat 4301 = ''4301''"
    by (simp_all add: str_nat.simps [of 4300] str_nat.simps [of 4301] str_nat.simps [of 430]
        str_nat.simps [of 43] str_nat.simps [of 4] d)
qed

lemma all_digits_replicate: "0 < k \<Longrightarrow> is_digit c \<Longrightarrow> all_digits (replicate k c)"
  by (simp add: all_digits_def list_all_iff)

lemma limit_error:
  assumes "all_digits t" "length t = 4301"
  shows "parse_timestamp_to_hhmmss t =
     Inl (ValueError (''Exceeds the limit (4300 digits) for integer string conversion: '' @
                      ''value has 4301 digits; '' @
                      ''use sys.set_int_max_str_digits() to increase the limit''))"
proof -
  have st: "strip t = t" using assms(1) by (rule strip_all_digits)
  have "over_limit (strip t)"
    using assms by (simp add: st over_limit_def int_max_str_digits_def)
  from parse_over_limit [OF this] show ?thesis
    by (simp add: st assms(2) int_max_str_digits_def str_nat_limit)
qed

lemma normalize_spec_zeros: "0 < k \<Longrightarrow> normalize_spec (replicate k CHR ''0'') = ''00:00:00''"
proof -
  assume "0 < k"
  then have ad: "all_digits (replicate k CHR ''0'')"
    by (intro all_digits_replicate is_digit_zero)
  have st: "strip (replicate k CHR ''0'') = replicate k CHR ''0''"
    using ad by (rule strip_all_digits)
  have dv: "digits_value (replicate k CHR ''0'') = 0"
    by (simp add: digits_value_def foldl_zeros)
  show ?thesis
    using ad all_digits_no_colon_shape [OF ad]
    by (simp add: normalize_spec_def Let_def st dv str_nat_0 pad2_def colon_def)
qed

lemma foldl_digits_mono:
  "a \<le> b \<Longrightarrow> foldl (\<lambda>a c. 10 * a + digit_val c) a t \<le> foldl (\<lambda>a c. 10 * a + digit_val c) b t"
  by (induction t arbitrary: a b) simp_all

lemma digits_value_append_ge: "digits_value t \<le> digits_value (s @ t)"
  by (simp add: digits_value_def foldl_digits_mono)

lemma nines:
  "all_digits (replicate 4301 CHR ''9'')" "length (replicate 4301 CHR ''9'') = 4301"
  "360000 \<le> digits_value (replicate 4301 CHR ''9'')"
proof -
  show "all_digits (replicate 4301 CHR ''9'')"
    by (intro all_digits_replicate) (simp_all add: is_digit_def)
  show "length (replicate 4301 CHR ''9'') = 4301" by simp
  have "replicate (4295 + 6) CHR ''9'' = replicate 4295 CHR ''9'' @ replicate 6 CHR ''9''"
    by (rule replicate_add)
  moreover have "replicate 6 CHR ''9'' = ''999999''" by (simp add: eval_nat_numeral)
  moreover have "(4295::nat) + 6 = 4301" by simp
  ultimately have "replicate 4301 CHR ''9'' = replicate 4295 CHR ''9'' @ ''999999''"
    by (simp only:)
  moreover have "digits_value ''999999'' = 999999"
    by (simp add: digits_value_def digit_val_def)
  ultimately show "360000 \<le> digits_value (replicate 4301 CHR ''9'')"
    using digits_value_append_ge [of "''999999''" "replicate 4295 CHR ''9''"] by simp
qed

lemma parse_seconds_within_limit:
  assumes "all_digits raw" "length raw \<le> int_max_str_digits"
  shows "parse_timestamp_to_hhmmss raw =
     Inr (pad2 (str_nat (digits_value raw div 3600)) @ [colon] @
          pad2 (str_nat ((digits_value raw mod 3600) div 60)) @ [colon] @
          pad2 (str_nat (digits_value raw mod 60)))"
proof -
  have st: "strip raw = raw" using assms(1) by (rule strip_all_digits)
  have "\<not> over_limit (strip raw)" using assms(2) by (simp add: st within_limit)
  then show ?thesis
    using assms(1) all_digits_no_colon_shape [OF assms(1)]
    by (simp add: parse_refines normalize_spec_def Let_def st)
qed

lemma hd_str_nat: "0 < n \<Longrightarrow> hd (str_nat n) \<noteq> CHR ''0''"
proof (induction n rule: str_nat.induct)
  case (1 n)
  show ?case
  proof (cases "n < 10")
    case True
    have "digit_val (digit_char n) = n" using True by (rule digit_val_digit_char)
    then have "digit_char n \<noteq> CHR ''0''" using "1.prems" by (auto simp add: digit_val_zero)
    then show ?thesis using True by (simp add: str_nat_small)
  next
    case False
    then have "0 < n div 10" by simp
    with False 1 have "hd (str_nat (n div 10)) \<noteq> CHR ''0''" by simp
    moreover have "str_nat (n div 10) \<noteq> []" using str_nat_digits by simp
    ultimately show ?thesis using False by (simp add: str_nat_large)
  qed
qed

lemma pad2_long: "2 \<le> length f \<Longrightarrow> pad2 f = f"
  by (simp add: pad2_def)

lemma ones:
  "all_digits (replicate 4301 CHR ''1'')" "length (replicate 4301 CHR ''1'') = 4301"
  "over_limit (strip (replicate 4301 CHR ''1''))"
proof -
  show ad: "all_digits (replicate 4301 CHR ''1'')"
    by (intro all_digits_replicate) (simp_all add: is_digit_def)
  show "length (replicate 4301 CHR ''1'') = 4301" by simp
  show "over_limit (strip (replicate 4301 CHR ''1''))"
    using ad by (simp add: strip_all_digits over_limit_def int_max_str_digits_def)
qed

lemma parse_over_limit_raises:
  "over_limit (strip raw) \<Longrightarrow> \<exists>msg. parse_timestamp_to_hhmmss raw = Inl (ValueError msg)"
  by (simp add: parse_over_limit)

lemma unrecognized_within_limit: "\<not> recognized t \<Longrightarrow> \<not> over_limit t"
  by (simp add: recognized_def over_limit_def)

section \<open>The claims about the normalizer\<close>

text \<open>
  Claim C1, as stated: the normalizer implements exactly the six ordered rules of the
  specification, for every input string. It fails at the input of 4301 characters
  \<^verbatim>\<open>0\<close>: the input consists entirely of digits, so rule 3 decides and its output is the
  conversion of the count of 0 seconds, \<^verbatim>\<open>00:00:00\<close>; in the code \<^verbatim>\<open>int(ts)\<close> of
  line 58 raises ValueError, the number having more digits than the interpreter converts.
\<close>

theorem six_rules_counterexample:
  "parse_timestamp_to_hhmmss (replicate 4301 CHR ''0'') =
     Inl (ValueError (''Exceeds the limit (4300 digits) for integer string conversion: '' @
                      ''value has 4301 digits; '' @
                      ''use sys.set_int_max_str_digits() to increase the limit'')) \<and>
   all_digits (strip (replicate 4301 CHR ''0'')) \<and>
   normalize_spec (replicate 4301 CHR ''0'') = ''00:00:00''"
proof -
  have ad: "all_digits (replicate 4301 CHR ''0'')"
    by (intro all_digits_replicate is_digit_zero) simp
  have st: "strip (replicate 4301 CHR ''0'') = replicate 4301 CHR ''0''"
    using ad by (rule strip_all_digits)
  have "length (replicate 4301 CHR ''0'') = 4301" by simp
  note limit_error [OF ad this]
  moreover have "normalize_spec (replicate 4301 CHR ''0'') = ''00:00:00''"
    by (rule normalize_spec_zeros) simp
  ultimately show ?thesis using ad by (simp only: st simp_thms)
qed

text \<open>
  Claim C1, amended. The normalizer implements exactly the six ordered rules of the
  specification, the first matching rule deciding the output, on every input whose trimmed
  text is not a run of more than 4300 digits: there the result of
  \<open>parse_timestamp_to_hhmmss\<close> is the result of \<open>normalize_spec\<close>, the six rules written
  after the specification's words, each read on the trimmed input. On a run of more than
  4300 digits, which rule 3 selects, ValueError is raised and nothing is returned. The
  example of the claim holds: the text with the embedded \<^verbatim>\<open>1:02:03\<close> gives
  \<^verbatim>\<open>01:02:03\<close>.
\<close>

theorem normalizer_six_rules:
  "(\<not> over_limit (strip raw) \<longrightarrow> parse_timestamp_to_hhmmss raw = Inr (normalize_spec raw)) \<and>
   (over_limit (strip raw) \<longrightarrow> (\<exists>msg. parse_timestamp_to_hhmmss raw = Inl (ValueError msg))) \<and>
   parse_timestamp_to_hhmmss ''topic discussed at 1:02:03 in the clip'' = Inr ''01:02:03''"
proof (intro conjI impI)
  assume "\<not> over_limit (strip raw)"
  then show "parse_timestamp_to_hhmmss raw = Inr (normalize_spec raw)"
    by (rule parse_refines)
next
  assume "over_limit (strip raw)"
  then show "\<exists>msg. parse_timestamp_to_hhmmss raw = Inl (ValueError msg)"
    by (rule parse_over_limit_raises)
next
  have e: "normalize_spec ''topic discussed at 1:02:03 in the clip'' = ''01:02:03''"
    by code_simp
  have "\<not> over_limit (strip ''topic discussed at 1:02:03 in the clip'')"
    by code_simp
  from parse_refines [OF this]
  show "parse_timestamp_to_hhmmss ''topic discussed at 1:02:03 in the clip'' = Inr ''01:02:03''"
    by (simp only: e)
qed

theorem normalizer_six_rules_witness:
  "parse_timestamp_to_hhmmss '' 5:47 '' = Inr ''00:05:47'' \<and>
   (\<exists>msg. parse_timestamp_to_hhmmss (replicate 4301 CHR ''1'') = Inl (ValueError msg))"
proof -
  have "normalize_spec '' 5:47 '' = ''00:05:47''" by code_simp
  moreover have "\<not> over_limit (strip '' 5:47 '')" by code_simp
  ultimately show ?thesis
    using normalizer_six_rules [of "'' 5:47 ''"]
      normalizer_six_rules [of "replicate 4301 CHR ''1''"] ones(3)
    by (simp only: simp_thms)
qed

text \<open>
  Claim C3, as stated: every output is a canonical timestamp, its minutes and seconds in
  [00,59]. It fails: the input \<^verbatim>\<open>00:99:99\<close> has the shape of rule 1 and is returned
  unchanged, with minutes and seconds 99.
\<close>

theorem canonical_counterexample:
  "parse_timestamp_to_hhmmss ''00:99:99'' = Inr ''00:99:99'' \<and> \<not> canonical_timestamp ''00:99:99''"
  by code_simp

text \<open>
  Claim C3, amended. For every input whose trimmed text is not a run of more than 4300
  digits, the output has the shape of a timestamp: three fields of digits, the hours at
  least 2 wide, the minutes and the seconds exactly 2 wide. The hours are wider than 2 only
  when the trimmed input is all digits and counts at least 360000 seconds. When the trimmed
  input is all digits (the seconds rule), the minutes and the seconds are in [00,59].
\<close>

theorem normalizer_output_shape:
  assumes "\<not> over_limit (strip raw)"
  shows "\<exists>out. parse_timestamp_to_hhmmss raw = Inr out \<and> timestamp_shaped out \<and>
     (2 < length (hours_field out) \<longrightarrow> all_digits (strip raw) \<and> 360000 \<le> digits_value (strip raw)) \<and>
     (all_digits (strip raw) \<longrightarrow> canonical_timestamp out)"
proof -
  obtain h m s where
    out: "normalize_spec raw = h @ colon # m @ colon # s" and ok: "fields_ok h m s" and
    wide: "2 < length h \<longrightarrow> all_digits (strip raw) \<and> 360000 \<le> digits_value (strip raw)" and
    rng: "all_digits (strip raw) \<longrightarrow> digits_value m \<le> 59 \<and> digits_value s \<le> 59"
    using normalize_fields [of raw] by blast
  let ?out = "h @ colon # m @ colon # s"
  have sp: "split_on colon ?out = [h, m, s]" using ok by (rule fields_split)
  have sh: "timestamp_shaped ?out"
    using ok by (simp add: timestamp_shaped_def sp fields_ok_def)
  have hf: "hours_field ?out = h"
    using ok by (simp add: hours_field_eq fields_ok_def all_digits_def)
  have "all_digits (strip raw) \<longrightarrow> canonical_timestamp ?out"
    using rng sh by (simp add: canonical_timestamp_def sp)
  with sh wide hf parse_refines [OF assms] out show ?thesis
    by (intro exI [of _ ?out]) simp
qed

theorem normalizer_output_shape_witness:
  "(\<exists>out. parse_timestamp_to_hhmmss ''347'' = Inr out \<and> timestamp_shaped out \<and>
      canonical_timestamp out) \<and>
   all_digits (strip ''360000'') \<and> 360000 \<le> digits_value (strip ''360000'')"
proof -
  have l: "\<not> over_limit (strip ''347'')" "\<not> over_limit (strip ''360000'')"
    by (simp_all add: within_limit strip_def is_space_def int_max_str_digits_def)
  have "all_digits (strip ''347'')" by code_simp
  then have a: "\<exists>out. parse_timestamp_to_hhmmss ''347'' = Inr out \<and> timestamp_shaped out \<and>
      canonical_timestamp out"
    using normalizer_output_shape [OF l(1)] by blast
  from normalizer_output_shape [OF l(2)] obtain out where
    o: "parse_timestamp_to_hhmmss ''360000'' = Inr out"
    "2 < length (hours_field out) \<longrightarrow>
       all_digits (strip ''360000'') \<and> 360000 \<le> digits_value (strip ''360000'')"
    by blast
  from o(1) have "out = ''100:00:00''" by (simp add: overflow_example)
  then have "2 < length (hours_field out)" by (simp add: overflow_hours)
  with o(2) a show ?thesis by blast
qed

text \<open>
  Claim C4, as stated: the normalizer is total, for every input string it never raises
  and always returns a string. It fails at the input of 4301 characters \<^verbatim>\<open>1\<close>: the
  input matches \<^verbatim>\<open>^\d+$\<close>, and \<^verbatim>\<open>int(ts)\<close> of line 58 raises ValueError, which
  nothing in the normalizer catches; no string is returned.
\<close>

theorem normalizer_total_counterexample:
  "parse_timestamp_to_hhmmss (replicate 4301 CHR ''1'') =
     Inl (ValueError (''Exceeds the limit (4300 digits) for integer string conversion: '' @
                      ''value has 4301 digits; '' @
                      ''use sys.set_int_max_str_digits() to increase the limit''))"
  using ones(1,2) by (rule limit_error)

text \<open>
  Claim C4, amended. The normalizer returns a string and raises nothing on every input
  whose trimmed text is not a run of more than 4300 digits; on such a run, and on nothing
  else, it raises ValueError. It returns the default \<^verbatim>\<open>00:00:00\<close> whenever no numeric
  pattern is recognized (none of the rules 1 to 5 applies), in particular for the empty
  string and for every string without a digit.
\<close>

theorem normalizer_total:
  "(\<not> over_limit (strip raw) \<longrightarrow> (\<exists>out. parse_timestamp_to_hhmmss raw = Inr out)) \<and>
   (over_limit (strip raw) \<longrightarrow> (\<exists>msg. parse_timestamp_to_hhmmss raw = Inl (ValueError msg))) \<and>
   (\<not> recognized (strip raw) \<longrightarrow> parse_timestamp_to_hhmmss raw = Inr ''00:00:00'') \<and>
   (list_all (\<lambda>c. \<not> is_digit c) raw \<longrightarrow> parse_timestamp_to_hhmmss raw = Inr ''00:00:00'')"
proof (intro conjI impI)
  assume "\<not> over_limit (strip raw)"
  then show "\<exists>out. parse_timestamp_to_hhmmss raw = Inr out"
    by (simp add: parse_refines)
next
  assume "over_limit (strip raw)"
  then show "\<exists>msg. parse_timestamp_to_hhmmss raw = Inl (ValueError msg)"
    by (rule parse_over_limit_raises)
next
  assume u: "\<not> recognized (strip raw)"
  then have "\<not> over_limit (strip raw)" by (rule unrecognized_within_limit)
  then show "parse_timestamp_to_hhmmss raw = Inr ''00:00:00''"
    using u by (simp add: parse_refines unrecognized_default)
next
  assume "list_all (\<lambda>c. \<not> is_digit c) raw"
  then have u: "\<not> recognized (strip raw)" by (rule no_digit_unrecognized)
  then have "\<not> over_limit (strip raw)" by (rule unrecognized_within_limit)
  then show "parse_timestamp_to_hhmmss raw = Inr ''00:00:00''"
    using u by (simp add: parse_refines unrecognized_default)
qed

theorem normalizer_total_witness:
  "parse_timestamp_to_hhmmss '''' = Inr ''00:00:00'' \<and>
   parse_timestamp_to_hhmmss ''no timestamps here'' = Inr ''00:00:00'' \<and>
   (\<exists>out. parse_timestamp_to_hhmmss ''90'' = Inr out) \<and>
   (\<exists>msg. parse_timestamp_to_hhmmss (replicate 4301 CHR ''1'') = Inl (ValueError msg))"
proof -
  have "\<not> recognized (strip '''')" by code_simp
  moreover have "list_all (\<lambda>c. \<not> is_digit c) ''no timestamps here''" by code_simp
  moreover have "\<not> over_limit (strip ''90'')" by code_simp
  ultimately show ?thesis
    using normalizer_total [of "''''"] normalizer_total [of "''no timestamps here''"]
      normalizer_total [of "''90''"] normalizer_total [of "replicate 4301 CHR ''1''"] ones(3)
    by blast
qed

text \<open>
  Claim C5. For every natural number \<open>n < 86400\<close> printed as a digit string, the
  normalizer returns a timestamp of three fields of exactly two digits each, which
  \<^verbatim>\<open>int\<close> reads back as \<open>H\<close>, \<open>M\<close>, \<open>S\<close> with \<open>H * 3600 + M * 60 + S = n\<close>, where
  \<open>H\<close> is at most 23 and \<open>M\<close> and \<open>S\<close> are at most 59: the decomposition of \<open>n\<close> into
  hours, minutes and seconds, and no other.
\<close>

theorem seconds_round_trip:
  assumes "n < 86400"
  shows "\<exists>out h m s H M S. parse_timestamp_to_hhmmss (str_nat n) = Inr out \<and>
     split_on colon out = [h, m, s] \<and>
     length h = 2 \<and> length m = 2 \<and> length s = 2 \<and>
     py_int h = Inr H \<and> py_int m = Inr M \<and> py_int s = Inr S \<and>
     H * 3600 + M * 60 + S = int n \<and>
     0 \<le> H \<and> H \<le> 23 \<and> 0 \<le> M \<and> M \<le> 59 \<and> 0 \<le> S \<and> S \<le> 59 \<and>
     H = int n div 3600 \<and> M = int n mod 3600 div 60 \<and> S = int n mod 60"
proof -
  have ad: "all_digits (str_nat n)" using str_nat_digits [of n] by (simp add: all_digits_def)
  then have st: "strip (str_nat n) = str_nat n" by (rule strip_all_digits)
  have "n < 10 ^ 5" using assms by simp
  then have "length (str_nat n) \<le> 5" by (intro length_str_nat_bound) simp_all
  then have lim: "\<not> over_limit (strip (str_nat n))"
    by (simp add: st over_limit_def int_max_str_digits_def)
  obtain h m s where
    out: "normalize_spec (str_nat n) = h @ colon # m @ colon # s" and ok: "fields_ok h m s" and
    wide: "2 < length h \<longrightarrow> 360000 \<le> n" and
    rng: "digits_value m \<le> 59" "digits_value s \<le> 59" and
    sum: "digits_value h * 3600 + digits_value m * 60 + digits_value s = n"
    using normalize_fields [of "str_nat n"] ad unfolding st digits_value_str_nat by blast
  define H M S where "H = digits_value h" and "M = digits_value m" and "S = digits_value s"
  have len: "length h = 2" "length m = 2" "length s = 2"
    using ok wide assms by (auto simp add: fields_ok_def)
  have sumn: "H * 3600 + M * 60 + S = n" and rngn: "M \<le> 59" "S \<le> 59"
    using sum rng by (simp_all add: H_def M_def S_def)
  have Hn: "H \<le> 23" using sumn assms by linarith
  have vals: "n div 3600 = H" "n mod 3600 div 60 = M" "n mod 60 = S"
  proof -
    have ms: "M * 60 + S < 3600" using rngn by linarith
    have "n = (M * 60 + S) + H * 3600" using sumn by simp
    then show h: "n div 3600 = H" and r: "n mod 3600 div 60 = M"
      using ms rngn by simp_all
    have "n = S + (M + H * 60) * 60" using sumn by simp
    then have "n mod 60 = S mod 60" by (simp only: mod_mult_self1)
    then show "n mod 60 = S" using rngn by simp
  qed
  have ivals: "int H = int n div 3600" "int M = int n mod 3600 div 60" "int S = int n mod 60"
  proof -
    have eq: "int n div 3600 = int (n div 3600)" "int n mod 3600 div 60 = int (n mod 3600 div 60)"
      "int n mod 60 = int (n mod 60)"
      by (simp_all add: zdiv_int zmod_int)
    show "int H = int n div 3600" "int M = int n mod 3600 div 60" "int S = int n mod 60"
      by (simp_all only: eq vals)
  qed
  have "int (H * 3600 + M * 60 + S) = int n" by (simp only: sumn)
  then have isum: "int H * 3600 + int M * 60 + int S = int n"
    by (simp only: of_nat_add of_nat_mult of_nat_numeral)
  have irng: "0 \<le> int H" "int H \<le> 23" "0 \<le> int M" "int M \<le> 59" "0 \<le> int S" "int S \<le> 59"
    using Hn rngn by simp_all
  have p: "parse_timestamp_to_hhmmss (str_nat n) = Inr (h @ colon # m @ colon # s)"
    by (simp only: parse_refines [OF lim] out)
  note sp = fields_split [OF ok]
  have "length h \<le> int_max_str_digits" using len(1) limit_pos(2) by simp
  note pi = py_int_fields [OF ok this, folded H_def M_def S_def]
  show ?thesis
    by (intro exI [of _ "h @ colon # m @ colon # s"] exI [of _ h] exI [of _ m] exI [of _ s]
        exI [of _ "int H"] exI [of _ "int M"] exI [of _ "int S"] conjI)
       (rule p sp isum len irng ivals pi [THEN conjunct1] pi [THEN conjunct2, THEN conjunct1]
          pi [THEN conjunct2, THEN conjunct2])+
qed

theorem seconds_round_trip_witness:
  "\<exists>out h m s H M S. parse_timestamp_to_hhmmss ''347'' = Inr out \<and>
     split_on colon out = [h, m, s] \<and>
     length h = 2 \<and> length m = 2 \<and> length s = 2 \<and>
     py_int h = Inr H \<and> py_int m = Inr M \<and> py_int s = Inr S \<and>
     H * 3600 + M * 60 + S = 347 \<and>
     0 \<le> H \<and> H \<le> 23 \<and> 0 \<le> M \<and> M \<le> 59 \<and> 0 \<le> S \<and> S \<le> 59 \<and>
     H = 347 div 3600 \<and> M = 347 mod 3600 div 60 \<and> S = 347 mod 60"
proof -
  note s = str_nat_347
  have "(347::nat) < 86400" by simp
  from seconds_round_trip [OF this] show ?thesis
    unfolding s by (simp only: of_nat_numeral)
qed

text \<open>
  Claim C8, as stated: for every digit string whose value is at least 360000 the output
  has an hour field wider than 2 characters. It fails at the input of 4301 characters
  \<^verbatim>\<open>9\<close>, a digit string of a value of at least 360000: \<^verbatim>\<open>int(ts)\<close> of line 58
  raises ValueError before \<^verbatim>\<open>seconds_to_hhmmss\<close> is called, and there is no output.
\<close>

theorem hours_counterexample:
  "all_digits (replicate 4301 CHR ''9'') \<and> 360000 \<le> digits_value (replicate 4301 CHR ''9'') \<and>
   parse_timestamp_to_hhmmss (replicate 4301 CHR ''9'') =
     Inl (ValueError (''Exceeds the limit (4300 digits) for integer string conversion: '' @
                      ''value has 4301 digits; '' @
                      ''use sys.set_int_max_str_digits() to increase the limit''))"
  using nines limit_error [OF nines(1,2)] by (intro conjI)

text \<open>
  Claim C8, amended. In the all-digits rule the hours are not clamped: for every digit
  string of at most 4300 digits whose value \<open>v\<close> is at least 360000, the output has three
  fields of digits; the hour field is the number \<open>v div 3600\<close> written without a leading
  zero, which is wider than 2 characters; the minute and the second field are 2 digits
  each and are the numbers \<open>(v mod 3600) div 60\<close> and \<open>v mod 60\<close>.
\<close>

theorem hours_not_clamped:
  assumes "all_digits raw" and "360000 \<le> digits_value raw"
    and "length raw \<le> int_max_str_digits"
  shows "\<exists>out h m s. parse_timestamp_to_hhmmss raw = Inr out \<and>
     split_on colon out = [h, m, s] \<and>
     all_digits h \<and> 2 < length h \<and> hd h \<noteq> CHR ''0'' \<and>
     digits_value h = digits_value raw div 3600 \<and>
     all_digits m \<and> length m = 2 \<and> digits_value m = (digits_value raw mod 3600) div 60 \<and>
     all_digits s \<and> length s = 2 \<and> digits_value s = digits_value raw mod 60"
proof -
  define v where "v = digits_value raw"
  let ?h = "pad2 (str_nat (v div 3600))"
  let ?m = "pad2 (str_nat ((v mod 3600) div 60))"
  let ?s = "pad2 (str_nat (v mod 60))"
  have p: "parse_timestamp_to_hhmmss raw = Inr (?h @ colon # ?m @ colon # ?s)"
    using parse_seconds_within_limit [OF assms(1,3)] by (simp add: v_def)
  have H: "100 \<le> v div 3600" using assms(2) by (simp only: hours_100 v_def)
  have M: "(v mod 3600) div 60 < 100"
  proof -
    have "(v mod 3600) div 60 < 60" by simp
    then show ?thesis by linarith
  qed
  have S: "v mod 60 < 100" using mod_less_divisor [of 60 v] by linarith
  have h: "?h = str_nat (v div 3600)"
    using length_str_nat_large [OF H] by (intro pad2_long) simp
  have "0 < v div 3600" using H by linarith
  then have hd: "hd ?h \<noteq> CHR ''0''" unfolding h by (rule hd_str_nat)
  have ok: "fields_ok ?h ?m ?s"
    using pad2_str_nat_fields(1,2) pad2_str_nat_fields(3) [OF M] pad2_str_nat_fields(3) [OF S]
    by (simp add: fields_ok_def)
  note sp = fields_split [OF ok]
  show ?thesis
    using p sp hd pad2_str_nat_fields(1,5) pad2_str_nat_fields(4) [OF H]
      pad2_str_nat_fields(3) [OF M] pad2_str_nat_fields(3) [OF S]
    unfolding v_def [symmetric]
    by (intro exI [of _ "?h @ colon # ?m @ colon # ?s"] exI [of _ ?h] exI [of _ ?m]
        exI [of _ ?s]) (simp only: simp_thms)
qed

theorem hours_not_clamped_witness:
  "\<exists>out h m s. parse_timestamp_to_hhmmss ''360000'' = Inr out \<and>
     split_on colon out = [h, m, s] \<and>
     all_digits h \<and> 2 < length h \<and> hd h \<noteq> CHR ''0'' \<and>
     digits_value h = digits_value ''360000'' div 3600 \<and>
     all_digits m \<and> length m = 2 \<and> digits_value m = (digits_value ''360000'' mod 3600) div 60 \<and>
     all_digits s \<and> length s = 2 \<and> digits_value s = digits_value ''360000'' mod 60"
proof -
  have "all_digits ''360000''"
    by (simp add: all_digits_def is_digit_def)
  moreover have "360000 \<le> digits_value ''360000''"
    by (simp add: digits_value_def digit_val_def)
  moreover have "length ''360000'' \<le> int_max_str_digits"
    by (simp add: int_max_str_digits_def)
  ultimately show ?thesis by (rule hours_not_clamped)
qed

section \<open>Lemmas about the video identifier\<close>

lemma in_cls_IdChar [simp]: "in_cls IdChar = is_id_char"
  by (rule ext) simp

lemma id_only: "match_here [Rep IdChar 11 (Some 11)] pos s =
   (if is_identifier (take 11 s) then Some [take 11 s] else None)"
  by (auto simp add: rep_fixed is_identifier_def)

lemma match_video:
  "match_here pat_video_id pos s = map_option (\<lambda>i. [i]) (first_some (id_after s) video_words)"
  by (simp add: pat_video_id_def video_words_def id_after_def id_only del: match_here.simps(6))

lemma search_video:
  "search_from pat_video_id pos s = map_option (\<lambda>i. [i]) (first_video_id s)"
proof (induction s arbitrary: pos)
  case Nil
  show ?case by (simp add: match_video video_words_def id_after_def starts_with_def)
next
  case (Cons c t)
  then show ?case by (simp add: match_video split: option.splits)
qed

lemma extract_refines: "extract_video_id url = Inr (first_video_id url)"
  by (cases "first_video_id url")
     (simp_all add: extract_video_id_def re_search_def search_video group_of_def index_def bnd_def)


lemma take_add_eq_append:
  assumes "length i = b"
  shows "(take (length w + b) s = w @ i) = (take (length w) s = w \<and> take b (drop (length w) s) = i)"
proof
  assume e: "take (length w + b) s = w @ i"
  then have "take (length w) (take (length w + b) s) = take (length w) (w @ i)" by simp
  then have w: "take (length w) s = w" by simp
  from e have "drop (length w) (take (length w + b) s) = drop (length w) (w @ i)" by simp
  then have "take b (drop (length w) s) = i" by (simp add: drop_take)
  with w show "take (length w) s = w \<and> take b (drop (length w) s) = i" by simp
next
  assume "take (length w) s = w \<and> take b (drop (length w) s) = i"
  then show "take (length w + b) s = w @ i" by (simp add: take_add)
qed

lemma occurs_at_0:
  "occurs_at s 0 w i = (w \<in> set video_words \<and> id_after s w = Some i)"
proof (cases "is_identifier i")
  case True
  then have "length i = 11" by (simp add: is_identifier_def)
  from take_add_eq_append [OF this, of w s] True show ?thesis
    by (auto simp add: occurs_at_def id_after_def starts_with_def)
next
  case False
  then show ?thesis by (auto simp add: occurs_at_def id_after_def)
qed

lemma occurs_at_Suc: "occurs_at (c # t) (Suc k) w i = occurs_at t k w i"
  by (simp add: occurs_at_def)

lemma occurs_at_Nil: "\<not> occurs_at [] k w i"
  by (auto simp add: occurs_at_def is_identifier_def)

lemma first_some_None: "first_some f ks = None \<Longrightarrow> k \<in> set ks \<Longrightarrow> f k = None"
  by (induction ks) (auto split: option.splits)

lemma first_video_id_None: "first_video_id s = None \<Longrightarrow> \<not> occurs_at s k w i"
proof (induction s arbitrary: k)
  case Nil
  show ?case by (rule occurs_at_Nil)
next
  case (Cons c t)
  from Cons.prems have a: "first_some (id_after (c # t)) video_words = None"
    and b: "first_video_id t = None"
    by (simp_all split: option.splits)
  show ?case
  proof (cases k)
    case 0
    show ?thesis
    proof
      assume "occurs_at (c # t) k w i"
      then have "w \<in> set video_words" "id_after (c # t) w = Some i"
        unfolding 0 occurs_at_0 by simp_all
      with first_some_None [OF a, of w] show False by simp
    qed
  next
    case (Suc j)
    then show ?thesis using Cons.IH [OF b, of j] by (simp add: occurs_at_Suc)
  qed
qed

lemma first_video_id_Some:
  "first_video_id s = Some i \<Longrightarrow>
   \<exists>k w. occurs_at s k w i \<and> (\<forall>k' w' i'. occurs_at s k' w' i' \<longrightarrow> k \<le> k')"
proof (induction s)
  case Nil
  then show ?case by simp
next
  case (Cons c t)
  show ?case
  proof (cases "first_some (id_after (c # t)) video_words")
    case (Some j)
    with Cons.prems have "j = i" by simp
    with Some obtain w where "w \<in> set video_words" "id_after (c # t) w = Some i"
      using first_some_Some [of "id_after (c # t)" video_words i] by blast
    then have "occurs_at (c # t) 0 w i" by (simp add: occurs_at_0)
    then show ?thesis by blast
  next
    case None
    with Cons.prems have "first_video_id t = Some i" by simp
    from Cons.IH [OF this] obtain k w where
      o: "occurs_at t k w i" and m: "\<forall>k' w' i'. occurs_at t k' w' i' \<longrightarrow> k \<le> k'"
      by blast
    have "\<forall>k' w' i'. occurs_at (c # t) k' w' i' \<longrightarrow> Suc k \<le> k'"
    proof (intro allI impI)
      fix k' w' i'
      assume oc: "occurs_at (c # t) k' w' i'"
      show "Suc k \<le> k'"
      proof (cases k')
        case 0
        with oc have "w' \<in> set video_words" "id_after (c # t) w' = Some i'"
          by (simp_all add: occurs_at_0)
        with first_some_None [OF None, of w'] show ?thesis by simp
      next
        case (Suc j)
        with oc have "occurs_at t j w' i'" by (simp add: occurs_at_Suc)
        with m have "k \<le> j" by blast
        with Suc show ?thesis by simp
      qed
    qed
    moreover have "occurs_at (c # t) (Suc k) w i" using o by (simp add: occurs_at_Suc)
    ultimately show ?thesis by blast
  qed
qed

lemma take_hd: "take n xs = a # r \<Longrightarrow> hd xs = a"
  by (cases xs; cases n) auto

lemma occurs_at_unique:
  assumes "occurs_at s k w i" "occurs_at s k w' i'"
  shows "w = w' \<and> i = i'"
proof -
  from assms have t: "take (length w + 11) (drop k s) = w @ i"
    "take (length w' + 11) (drop k s) = w' @ i'"
    and li: "length i = 11" "length i' = 11"
    and ws: "w \<in> set video_words" "w' \<in> set video_words"
    by (simp_all add: occurs_at_def is_identifier_def)
  from ws(1) obtain a r where w: "w = a # r" by (cases w) (auto simp: video_words_def)
  from ws(2) obtain a' r' where w': "w' = a' # r'" by (cases w') (auto simp: video_words_def)
  from t(1) w have "hd (drop k s) = a" by (simp add: take_hd)
  moreover from t(2) w' have "hd (drop k s) = a'" by (simp add: take_hd)
  ultimately have "hd w = hd w'" using w w' by simp
  with ws have "w = w'" by (auto simp: video_words_def)
  with t have "w @ i = w @ i'" by simp
  with \<open>w = w'\<close> show ?thesis by simp
qed

lemma first_video_id_iff:
  "(first_video_id s = Some i) =
   (\<exists>k w. occurs_at s k w i \<and> (\<forall>k' w' i'. occurs_at s k' w' i' \<longrightarrow> k \<le> k'))"
proof
  assume "first_video_id s = Some i"
  then show "\<exists>k w. occurs_at s k w i \<and> (\<forall>k' w' i'. occurs_at s k' w' i' \<longrightarrow> k \<le> k')"
    by (rule first_video_id_Some)
next
  assume "\<exists>k w. occurs_at s k w i \<and> (\<forall>k' w' i'. occurs_at s k' w' i' \<longrightarrow> k \<le> k')"
  then obtain k w where o: "occurs_at s k w i"
    and m: "\<forall>k' w' i'. occurs_at s k' w' i' \<longrightarrow> k \<le> k'" by blast
  show "first_video_id s = Some i"
  proof (cases "first_video_id s")
    case None
    from first_video_id_None [OF this, of k w i] o show ?thesis by simp
  next
    case (Some j)
    from first_video_id_Some [OF this] obtain k2 w2 where
      o2: "occurs_at s k2 w2 j" and m2: "\<forall>k' w' i'. occurs_at s k' w' i' \<longrightarrow> k2 \<le> k'"
      by blast
    from m o2 have "k \<le> k2" by blast
    moreover from m2 o have "k2 \<le> k" by blast
    ultimately have "k2 = k" by simp
    with o o2 occurs_at_unique [of s k w i w2 j] have "i = j" by simp
    with Some show ?thesis by simp
  qed
qed

lemma first_video_id_None_iff:
  "(first_video_id s = None) = (\<forall>k w i. \<not> occurs_at s k w i)"
proof
  assume "first_video_id s = None"
  then show "\<forall>k w i. \<not> occurs_at s k w i" using first_video_id_None by blast
next
  assume a: "\<forall>k w i. \<not> occurs_at s k w i"
  show "first_video_id s = None"
  proof (cases "first_video_id s")
    case None
    then show ?thesis .
  next
    case (Some j)
    from first_video_id_Some [OF this] a show ?thesis by blast
  qed
qed

lemma extract_example:
  "extract_video_id ''https://www.youtube.com/watch?v=dQw4w9WgXcQ&t=1'' = Inr (Some ''dQw4w9WgXcQ'')"
  by code_simp


lemma extract_skips_short_occurrence:
  "extract_video_id ''?v=short&v=ABCDEFGHIJK'' = Inr (Some ''ABCDEFGHIJK'')"
  by code_simp

section \<open>The claim about the video identifier\<close>

text \<open>
  Claim C9. For every URL the extractor raises nothing; it returns the 11-character
  identifier (letters, digits, underscore, hyphen) that immediately follows the first
  occurrence of one of the words \<^verbatim>\<open>v=\<close>, \<^verbatim>\<open>youtu.be/\<close>, \<^verbatim>\<open>embed/\<close> followed by such
  an identifier, and it returns \<^verbatim>\<open>None\<close> exactly when the URL has no such occurrence.
  (An occurrence of a word that 11 identifier characters do not follow is not an
  occurrence of the pattern: see \<open>extract_skips_short_occurrence\<close>.)
\<close>

theorem extract_video_id_first_occurrence:
  "(\<exists>r. extract_video_id url = Inr r) \<and>
   (extract_video_id url = Inr None) = (\<forall>k w i. \<not> occurs_at url k w i) \<and>
   (extract_video_id url = Inr (Some i)) =
     (\<exists>k w. occurs_at url k w i \<and> (\<forall>k' w' i'. occurs_at url k' w' i' \<longrightarrow> k \<le> k'))"
  by (simp add: extract_refines first_video_id_iff first_video_id_None_iff)


theorem extract_video_id_first_occurrence_witness:
  "\<exists>k w. occurs_at ''https://www.youtube.com/watch?v=dQw4w9WgXcQ&t=1'' k w ''dQw4w9WgXcQ'' \<and>
     (\<forall>k' w' i'. occurs_at ''https://www.youtube.com/watch?v=dQw4w9WgXcQ&t=1'' k' w' i'
        \<longrightarrow> k \<le> k')"
  using extract_video_id_first_occurrence
    [of "''https://www.youtube.com/watch?v=dQw4w9WgXcQ&t=1''" "''dQw4w9WgXcQ''"]
    extract_example
  by blast

section \<open>Lemmas about the handler\<close>

lemma seq_Inl:
  "seq m f s = (Inl x, s') \<Longrightarrow>
   m s = (Inl x, s') \<or> (\<exists>v s1. m s = (Inr v, s1) \<and> f v s1 = (Inl x, s'))"
  by (auto simp: seq_def split: prod.splits sum.splits)

lemma seq_cases:
  obtains (fail) x s1 where "m s = (Inl x, s1)" "seq m f s = (Inl x, s1)"
  | (ok) v s1 where "m s = (Inr v, s1)" "seq m f s = f v s1"
proof (cases "m s")
  case (Pair r s1)
  show ?thesis
  proof (cases r)
    case (Inl x)
    with Pair show ?thesis by (intro fail [of x s1]) (simp_all add: seq_def)
  next
    case (Inr v)
    with Pair show ?thesis by (intro ok [of v s1]) (simp_all add: seq_def)
  qed
qed

lemma trace_log [simp]: "trace (log ev s) = trace s @ [ev]"
  and dirs_log [simp]: "dirs (log ev s) = dirs s"
  and files_log [simp]: "files (log ev s) = files s"
  and tmp_audio_log [simp]: "tmp_audio (log ev s) = tmp_audio s"
  and uploaded_file_log [simp]: "uploaded_file (log ev s) = uploaded_file s"
  by (simp_all add: log_def)

lemma poll_events_Nil [simp]: "poll_events [] = []"
  and poll_events_Cons [simp]: "poll_events (n # ns) = Sleep 3 # Get n # poll_events ns"
  by (simp_all add: poll_events_def)

lemma poll_frame:
  "poll e w s = (r, s') \<Longrightarrow>
   \<exists>names. trace s' = trace s @ poll_events names \<and>
     w + 3 * length names \<le> max w (max_wait + 2) \<and>
     dirs s' = dirs s \<and> files s' = files s \<and> tmp_audio s' = tmp_audio s \<and>
     (uploaded_file s \<noteq> None \<longrightarrow> uploaded_file s' \<noteq> None) \<and>
     (r = Inr () \<longrightarrow>
        (\<exists>f. uploaded_file s' = Some f \<and>
           (fstate f = ''ACTIVE'' \<or> max_wait \<le> w + 3 * length names))) \<and>
     (\<forall>x. r = Inl x \<longrightarrow> (\<exists>msg. x = Exception msg))"
proof (induction e w s arbitrary: r s' rule: poll.induct)
  case (1 e waited s)
  show ?case
  proof (cases "uploaded_file s")
    case None
    with "1.prems" have "r = Inl none_attr" "s' = s" by (simp_all add: poll.simps [of e waited s])
    then show ?thesis by (intro exI [of _ "[]"]) (simp add: none_attr_def None)
  next
    case (Some f)
    show ?thesis
    proof (cases "fstate f \<noteq> ''ACTIVE'' \<and> waited < max_wait")
      case False
      with Some "1.prems" have "r = Inr ()" "s' = s" by (auto simp add: poll.simps [of e waited s])
      with False Some show ?thesis by (intro exI [of _ "[]"]) auto
    next
      case True
      let ?s2 = "log (Get (fname f)) (log (Sleep 3) s)"
      show ?thesis
      proof (cases "get_result e (waited + 3)")
        case (Inl msg)
        with True Some "1.prems" have "r = Inl (Exception msg)" "s' = ?s2"
          by (simp_all add: poll.simps [of e waited s])
        with True Some show ?thesis
          by (intro exI [of _ "[fname f]"]) (simp add: max_wait_def)
      next
        case (Inr f')
        let ?s3 = "?s2\<lparr>uploaded_file := Some f'\<rparr>"
        from True Some Inr "1.prems" have p: "poll e (waited + 3) ?s3 = (r, s')"
          by (simp add: poll.simps [of e waited s])
        from "1.IH" [OF Some True Inr p] obtain names where
          n: "trace s' = trace ?s3 @ poll_events names"
          "waited + 3 + 3 * length names \<le> max (waited + 3) (max_wait + 2)"
          "dirs s' = dirs ?s3" "files s' = files ?s3" "tmp_audio s' = tmp_audio ?s3"
          "uploaded_file ?s3 \<noteq> None \<longrightarrow> uploaded_file s' \<noteq> None"
          "r = Inr () \<longrightarrow>
             (\<exists>f. uploaded_file s' = Some f \<and>
               (fstate f = ''ACTIVE'' \<or> max_wait \<le> waited + 3 + 3 * length names))"
          "\<forall>x. r = Inl x \<longrightarrow> (\<exists>msg. x = Exception msg)"
          by blast
        from True n(2) have "waited + 3 * length (fname f # names) \<le> max waited (max_wait + 2)"
          by (simp add: max_wait_def)
        with n show ?thesis
          by (intro exI [of _ "fname f # names"]) (simp add: add.assoc)
      qed
    qed
  qed
qed

declare poll.simps [simp del]

lemma download_frame:
  assumes "download e body s = (r, s')"
  shows "(\<exists>rs. trace s' = trace s @ Mkdtemp # map Run rs \<and> length rs \<le> 1)"
    and "uploaded_file s' = uploaded_file s"
    and "dirs s' = (case mkdtemp_result e of Inr d \<Rightarrow> insert d (dirs s) | Inl _ \<Rightarrow> dirs s)"
    and "files s' =
           files s @ (case mkdtemp_result e of Inr d \<Rightarrow> map (Pair d) (run_files e) | Inl _ \<Rightarrow> [])"
    and "tmp_audio s' =
           (case mkdtemp_result e of Inr d \<Rightarrow> Some (d, ''audio.mp3'') | Inl _ \<Rightarrow> tmp_audio s)"
    and "\<And>d. r = Inr d \<Longrightarrow> mkdtemp_result e = Inr d \<and> (\<exists>err. run_result e = Inr (0, err))"
    and "\<And>x. r = Inl x \<Longrightarrow>
           (\<exists>msg. x = Exception msg \<and> (mkdtemp_result e = Inl msg \<or> run_result e = Inl msg)) \<or>
           (\<exists>d rc err. mkdtemp_result e = Inr d \<and> run_result e = Inr (rc, err) \<and> rc \<noteq> 0 \<and>
              x = HTTPException 400 (''yt-dlp error: '' @ err))"
proof -
  show "\<exists>rs. trace s' = trace s @ Mkdtemp # map Run rs \<and> length rs \<le> 1"
  proof (cases "mkdtemp_result e")
    case (Inl msg)
    with assms have "trace s' = trace s @ Mkdtemp # map Run []"
      by (auto simp: download_def)
    then show ?thesis by (intro exI [of _ "[]"]) simp
  next
    case (Inr d)
    with assms obtain cmd where "trace s' = trace s @ Mkdtemp # map Run [cmd]"
      by (auto simp: download_def Let_def split: sum.splits prod.splits if_splits)
    then show ?thesis by (intro exI [of _ "[cmd]"]) simp
  qed
qed (use assms in \<open>auto simp: download_def Let_def split: sum.splits prod.splits if_splits\<close>)

lemma locate_frame:
  assumes "locate d s = (r, s')"
  shows "trace s' = trace s" and "dirs s' = dirs s" and "files s' = files s"
    and "uploaded_file s' = uploaded_file s"
    and "r = Inr () \<Longrightarrow> \<exists>q. tmp_audio s' = Some q \<and> q \<in> set (files s')"
    and "\<And>x. r = Inl x \<Longrightarrow> x = HTTPException 500 ''Audio file not created'' \<or> x = none_path"
    and "tmp_audio s \<noteq> None \<Longrightarrow> tmp_audio s' \<noteq> None"
  using assms
  by (auto simp: locate_def Let_def path_exists_def split: option.splits if_splits)

lemma upload_frame:
  assumes "upload e s = (r, s')"
  shows "\<exists>us. trace s' = trace s @ map Upload us \<and> length us \<le> 1"
    and "dirs s' = dirs s" and "files s' = files s" and "tmp_audio s' = tmp_audio s"
    and "r = Inr () \<Longrightarrow> \<exists>f. uploaded_file s' = Some f \<and> upload_result e = Inr f"
    and "\<And>x. r = Inl x \<Longrightarrow> uploaded_file s' = uploaded_file s \<and>
           (x = none_path \<or> (\<exists>msg. x = Exception msg \<and> upload_result e = Inl msg))"
proof -
  show "\<exists>us. trace s' = trace s @ map Upload us \<and> length us \<le> 1"
  proof (cases "tmp_audio s")
    case None
    with assms have "trace s' = trace s @ map Upload []" by (auto simp: upload_def)
    then show ?thesis by (intro exI [of _ "[]"]) simp
  next
    case (Some p)
    with assms have "trace s' = trace s @ map Upload [p]"
      by (auto simp: upload_def split: sum.splits)
    then show ?thesis by (intro exI [of _ "[p]"]) simp
  qed
qed (use assms in \<open>auto simp: upload_def split: option.splits sum.splits\<close>)

lemma check_frame:
  assumes "check_active s = (r, s')"
  shows "s' = s"
    and "\<And>f. r = Inr f \<Longrightarrow> uploaded_file s = Some f \<and> fstate f = ''ACTIVE''"
    and "\<And>x. r = Inl x \<Longrightarrow> x = HTTPException 500 ''File processing timed out'' \<or> x = none_attr"
  using assms by (auto simp: check_active_def split: option.splits if_splits)

lemma parse_raises:
  assumes "parse_timestamp_to_hhmmss raw = Inl x"
  shows "\<exists>msg. x = ValueError msg"
proof (cases "over_limit (strip raw)")
  case True
  with assms show ?thesis by (auto simp add: parse_over_limit)
next
  case False
  with assms show ?thesis by (simp add: parse_refines)
qed

lemma parse_value_raises:
  "parse_value v = Inl x \<Longrightarrow> \<exists>msg. x = Exception msg \<or> x = ValueError msg"
  using parse_raises by (cases v) (auto simp add: parse_value_def)

lemma get_timestamp_raises: "get_timestamp doc = Inl x \<Longrightarrow> \<exists>msg. x = Exception msg"
  by (cases doc) (auto simp: get_timestamp_def split: option.splits)

lemma query_frame:
  assumes "query e body f s = (r, s')"
  shows "s' = log (Generate (furi f) (topic body)) s"
    and "\<And>x. r = Inl x \<Longrightarrow> \<exists>msg. x = Exception msg \<or> x = ValueError msg"
proof -
  show "s' = log (Generate (furi f) (topic body)) s"
    using assms by (auto simp: query_def Let_def split: sum.splits)
  fix x
  assume "r = Inl x"
  with assms show "\<exists>msg. x = Exception msg \<or> x = ValueError msg"
    by (auto simp: query_def Let_def bnd_def split: sum.splits
        dest: parse_value_raises get_timestamp_raises)
qed

lemma try_body_summary:
  assumes "try_body e body (initial D F) = (r, s1)"
  shows "body_ok e D F r s1"
proof -
  let ?s0 = "initial D F"
  have i: "trace ?s0 = []" "dirs ?s0 = D" "files ?s0 = F" "uploaded_file ?s0 = None"
    "tmp_audio ?s0 = None"
    by (simp_all add: initial_def)
  obtain r1 sa where d: "download e body ?s0 = (r1, sa)" by (cases "download e body ?s0")
  note df = download_frame [OF d]
  from df(1) obtain rs where rs: "trace sa = Mkdtemp # map Run rs" "length rs \<le> 1"
    using i by auto
  have base: "dirs sa = (case mkdtemp_result e of Inr d \<Rightarrow> insert d D | Inl _ \<Rightarrow> D)"
    "files sa = F @ (case mkdtemp_result e of Inr d \<Rightarrow> map (Pair d) (run_files e) | Inl _ \<Rightarrow> [])"
    "uploaded_file sa = None"
    "\<forall>p. tmp_audio sa = Some p \<longrightarrow> (\<exists>d. mkdtemp_result e = Inr d \<and> fst p = d)"
    using df(2,3,4,5) i by (auto split: sum.splits)
  show ?thesis
  proof (cases r1)
    case (Inl x)
    with d assms have "r = Inl x" "s1 = sa" by (simp_all add: try_body_def seq_def)
    moreover from df(7) [OF Inl] have
      "(\<exists>msg. x = Exception msg) \<or>
       (\<exists>d rc err. mkdtemp_result e = Inr d \<and> run_result e = Inr (rc, err) \<and> rc \<noteq> 0 \<and>
          x = HTTPException 400 (''yt-dlp error: '' @ err))"
      by blast
    ultimately show ?thesis
      unfolding body_ok_def using rs base
      by (intro conjI exI [of _ rs] exI [of _ "[]"]) auto
  next
    case (Inr tmp_dir)
    from df(6) [OF Inr] have md: "mkdtemp_result e = Inr tmp_dir" by simp
    obtain r2 sb where l: "locate tmp_dir sa = (r2, sb)" by (cases "locate tmp_dir sa")
    note lf = locate_frame [OF l]
    have ta: "tmp_audio sa = Some (tmp_dir, ''audio.mp3'')" using df(5) md by simp
    have tb: "\<forall>p. tmp_audio sb = Some p \<longrightarrow> (\<exists>d. mkdtemp_result e = Inr d \<and> fst p = d)"
      using l ta md by (auto simp: locate_def Let_def split: option.splits if_splits)
    show ?thesis
    proof (cases r2)
      case (Inl x)
      with d l Inr assms have "r = Inl x" "s1 = sb" by (simp_all add: try_body_def seq_def)
      moreover from lf(6) [OF Inl] have
        "(\<exists>msg. x = Exception msg) \<or> x = HTTPException 500 ''Audio file not created''"
        by (auto simp: none_path_def)
      ultimately show ?thesis
        unfolding body_ok_def using rs base lf(1,2,3,4) tb
        by (intro conjI exI [of _ rs] exI [of _ "[]"]) auto
    next
      case r2: (Inr u)
      obtain r3 sc where u: "upload e sb = (r3, sc)" by (cases "upload e sb")
      note uf = upload_frame [OF u]
      from uf(1) obtain us where us: "trace sc = trace sb @ map Upload us" "length us \<le> 1"
        by blast
      have tc: "trace sc = Mkdtemp # map Run rs @ map Upload us"
        using us(1) lf(1) rs(1) by simp
      have fc: "dirs sc = (case mkdtemp_result e of Inr d \<Rightarrow> insert d D | Inl _ \<Rightarrow> D)"
        "files sc = F @ (case mkdtemp_result e of Inr d \<Rightarrow> map (Pair d) (run_files e) | Inl _ \<Rightarrow> [])"
        "\<forall>p. tmp_audio sc = Some p \<longrightarrow> (\<exists>d. mkdtemp_result e = Inr d \<and> fst p = d)"
        using uf(2,3,4) lf(2,3) base(1,2) tb by simp_all
      show ?thesis
      proof (cases r3)
        case (Inl x)
        with d l u Inr r2 assms have "r = Inl x" "s1 = sc"
          by (simp_all add: try_body_def seq_def)
        moreover from uf(6) [OF Inl] have "\<exists>msg. x = Exception msg" "uploaded_file sc = None"
          using lf(4) base(3) by (auto simp: none_path_def)
        moreover have "\<not> (\<exists>f0. upload_result e = Inr f0)"
        proof -
          from lf(5) r2 obtain q where "tmp_audio sb = Some q" by auto
          with u Inl show ?thesis by (auto simp: upload_def split: sum.splits)
        qed
        ultimately show ?thesis
          unfolding body_ok_def using tc fc rs(2) us(2)
          by (intro conjI exI [of _ rs] exI [of _ us] exI [of _ "[]"]) auto
      next
        case r3: (Inr u3)
        from uf(5) have up: "\<exists>f0. upload_result e = Inr f0" "uploaded_file sc \<noteq> None"
          using r3 by auto
        obtain r4 sd where p: "poll e 0 sc = (r4, sd)" by (cases "poll e 0 sc")
        from poll_frame [OF p] obtain names where
          pf: "trace sd = trace sc @ poll_events names"
          "0 + 3 * length names \<le> max 0 (max_wait + 2)"
          "dirs sd = dirs sc" "files sd = files sc" "tmp_audio sd = tmp_audio sc"
          "uploaded_file sc \<noteq> None \<longrightarrow> uploaded_file sd \<noteq> None"
          "\<forall>x. r4 = Inl x \<longrightarrow> (\<exists>msg. x = Exception msg)"
          by blast
        from pf(2) have n40: "length names \<le> 40" by (simp add: max_wait_def)
        have td: "trace sd = Mkdtemp # map Run rs @ map Upload us @ poll_events names"
          using pf(1) tc by simp
        have rest: "try_body e body ?s0 = seq (poll e 0) (\<lambda>_. seq check_active (\<lambda>f. query e body f)) sc"
          using d l u Inr r2 r3 by (simp add: try_body_def seq_def after_upload_def)
        show ?thesis
        proof (cases r4)
          case (Inl x)
          with p rest assms have "r = Inl x" "s1 = sd" by (simp_all add: seq_def)
          moreover from pf(7) Inl have "\<exists>msg. x = Exception msg" by simp
          ultimately show ?thesis
            unfolding body_ok_def using td fc pf(3,4,5) rs(2) us(2) n40 up(1) up(2) pf(6)
            by (intro conjI exI [of _ rs] exI [of _ us] exI [of _ names] exI [of _ "[]"]) auto
        next
          case r4: (Inr u4)
          obtain r5 se where c: "check_active sd = (r5, se)" by (cases "check_active sd")
          note cf = check_frame [OF c]
          show ?thesis
          proof (cases r5)
            case (Inl x)
            with p c r4 rest assms have "r = Inl x" "s1 = sd"
              using cf(1) by (simp_all add: seq_def)
            moreover from cf(3) [OF Inl] have
              "(\<exists>msg. x = Exception msg) \<or> x = HTTPException 500 ''File processing timed out''"
              by (auto simp: none_attr_def)
            ultimately show ?thesis
              unfolding body_ok_def using td fc pf(3,4,5) rs(2) us(2) n40 up(1) up(2) pf(6)
              by (intro conjI exI [of _ rs] exI [of _ us] exI [of _ names] exI [of _ "[]"]) auto
          next
            case (Inr f)
            from cf(2) [OF Inr] cf(1) have act: "uploaded_file sd = Some f" "fstate f = ''ACTIVE''"
              by simp_all
            obtain r6 sf where q: "query e body f sd = (r6, sf)" by (cases "query e body f sd")
            note qf = query_frame [OF q]
            from p c q r4 Inr rest assms cf(1) have fin: "r = r6" "s1 = sf"
              by (simp_all add: seq_def)
            have tf: "trace sf = Mkdtemp # map Run rs @ map Upload us @ poll_events names @
                map (\<lambda>(u, t). Generate u t) [(furi f, topic body)]"
              using qf(1) td by simp
            have "\<forall>x. r = Inl x \<longrightarrow> (\<exists>msg. x = Exception msg \<or> x = ValueError msg)"
              using qf(2) fin by blast
            moreover have "uploaded_file sf = Some f" "dirs sf = dirs sd" "files sf = files sd"
              "tmp_audio sf = tmp_audio sd"
              using qf(1) act by simp_all
            ultimately show ?thesis
              unfolding body_ok_def fin(2) using tf fc pf(3,4,5) rs(2) us(2) n40 up(1) act(2)
              by (intro conjI exI [of _ rs] exI [of _ us] exI [of _ names]
                  exI [of _ "[(furi f, topic body)]"]) auto
          qed
        qed
      qed
    qed
  qed
qed

lemmas proj_defs =
  sleeps_def gets_def deletes_def removes_def generates_def uploads_def runs_def mkdtemps_def

lemma proj_append [simp]:
  "sleeps (a @ b) = sleeps a @ sleeps b" "gets (a @ b) = gets a @ gets b"
  "deletes (a @ b) = deletes a @ deletes b" "removes (a @ b) = removes a @ removes b"
  "generates (a @ b) = generates a @ generates b" "uploads (a @ b) = uploads a @ uploads b"
  "runs (a @ b) = runs a @ runs b" "mkdtemps (a @ b) = mkdtemps a + mkdtemps b"
  by (simp_all add: proj_defs)

lemma proj_Nil [simp]:
  "sleeps [] = []" "gets [] = []" "deletes [] = []" "removes [] = []" "generates [] = []"
  "uploads [] = []" "runs [] = []" "mkdtemps [] = 0"
  by (simp_all add: proj_defs)

lemma proj_Cons [simp]:
  "sleeps (ev # tr) = (case ev of Sleep n \<Rightarrow> [n] | _ \<Rightarrow> []) @ sleeps tr"
  "gets (ev # tr) = (case ev of Get n \<Rightarrow> [n] | _ \<Rightarrow> []) @ gets tr"
  "deletes (ev # tr) = (case ev of Delete n \<Rightarrow> [n] | _ \<Rightarrow> []) @ deletes tr"
  "removes (ev # tr) = (case ev of OsRemove p \<Rightarrow> [p] | _ \<Rightarrow> []) @ removes tr"
  "generates (ev # tr) = (case ev of Generate u t \<Rightarrow> [(u, t)] | _ \<Rightarrow> []) @ generates tr"
  "uploads (ev # tr) = (case ev of Upload p \<Rightarrow> [p] | _ \<Rightarrow> []) @ uploads tr"
  "runs (ev # tr) = (case ev of Run c \<Rightarrow> [c] | _ \<Rightarrow> []) @ runs tr"
  "mkdtemps (ev # tr) = (if ev = Mkdtemp then 1 else 0) + mkdtemps tr"
  by (simp_all add: proj_defs)

lemma proj_Run [simp]:
  "sleeps (map Run rs) = []" "gets (map Run rs) = []" "deletes (map Run rs) = []"
  "removes (map Run rs) = []" "generates (map Run rs) = []" "uploads (map Run rs) = []"
  "runs (map Run rs) = rs" "mkdtemps (map Run rs) = 0"
  by (induction rs) simp_all

lemma proj_Upload [simp]:
  "sleeps (map Upload us) = []" "gets (map Upload us) = []" "deletes (map Upload us) = []"
  "removes (map Upload us) = []" "generates (map Upload us) = []" "uploads (map Upload us) = us"
  "runs (map Upload us) = []" "mkdtemps (map Upload us) = 0"
  by (induction us) simp_all

lemma proj_Generate [simp]:
  "sleeps (map (\<lambda>(u, t). Generate u t) gs) = []" "gets (map (\<lambda>(u, t). Generate u t) gs) = []"
  "deletes (map (\<lambda>(u, t). Generate u t) gs) = []" "removes (map (\<lambda>(u, t). Generate u t) gs) = []"
  "generates (map (\<lambda>(u, t). Generate u t) gs) = gs" "uploads (map (\<lambda>(u, t). Generate u t) gs) = []"
  "runs (map (\<lambda>(u, t). Generate u t) gs) = []" "mkdtemps (map (\<lambda>(u, t). Generate u t) gs) = 0"
  by (induction gs) (simp_all split: prod.splits)

lemma proj_poll [simp]:
  "sleeps (poll_events names) = replicate (length names) 3" "gets (poll_events names) = names"
  "deletes (poll_events names) = []" "removes (poll_events names) = []"
  "generates (poll_events names) = []" "uploads (poll_events names) = []"
  "runs (poll_events names) = []" "mkdtemps (poll_events names) = 0"
  by (induction names) simp_all

lemma finally_frame:
  "finally_clause e s =
     (Inr (),
      s\<lparr>trace := trace s @
           (case tmp_audio s of Some p \<Rightarrow> if path_exists s p then [OsRemove p] else [] | None \<Rightarrow> []) @
           (case uploaded_file s of Some f \<Rightarrow> [Delete (fname f)] | None \<Rightarrow> []),
        files := (case tmp_audio s of
                    Some p \<Rightarrow> if path_exists s p \<and> \<not> remove_fails e
                              then removeAll p (files s) else files s
                  | None \<Rightarrow> files s)\<rparr>)"
  by (cases "tmp_audio s"; cases "uploaded_file s")
     (simp_all add: finally_clause_def seq_def except_pass_def os_remove_def files_delete_def
        log_def path_exists_def)

lemma ask_eq:
  assumes "try_body e body s0 = (r, s1)"
  shows "ask e body s0 = (except_clauses r, snd (finally_clause e s1))"
  using assms by (simp add: ask_def finally_frame)

lemma poll_env_cleanup:
  "poll (e\<lparr>remove_fails := a, delete_fails := b\<rparr>) w s = poll e w s"
proof (induction e w s rule: poll.induct)
  case (1 e waited s)
  show ?case
  proof (cases "uploaded_file s")
    case None
    then show ?thesis
      by (simp add: poll.simps [of e waited s]
          poll.simps [of "e\<lparr>remove_fails := a, delete_fails := b\<rparr>" waited s])
  next
    case (Some f)
    show ?thesis
    proof (cases "fstate f \<noteq> ''ACTIVE'' \<and> waited < max_wait")
      case False
      with Some show ?thesis
        by (auto simp add: poll.simps [of e waited s]
            poll.simps [of "e\<lparr>remove_fails := a, delete_fails := b\<rparr>" waited s])
    next
      case True
      show ?thesis
      proof (cases "get_result e (waited + 3)")
        case (Inl msg)
        with Some True show ?thesis
          by (simp add: poll.simps [of e waited s]
              poll.simps [of "e\<lparr>remove_fails := a, delete_fails := b\<rparr>" waited s])
      next
        case (Inr f')
        from "1.IH" [OF Some True Inr] Some True Inr show ?thesis
          by (simp add: poll.simps [of e waited s]
              poll.simps [of "e\<lparr>remove_fails := a, delete_fails := b\<rparr>" waited s])
      qed
    qed
  qed
qed

lemma try_body_env_cleanup:
  "try_body (e\<lparr>remove_fails := a, delete_fails := b\<rparr>) body s = try_body e body s"
proof -
  have "download (e\<lparr>remove_fails := a, delete_fails := b\<rparr>) body = download e body"
    by (rule ext) (simp add: download_def Let_def split: sum.splits)
  moreover have "upload (e\<lparr>remove_fails := a, delete_fails := b\<rparr>) = upload e"
    by (rule ext) (simp add: upload_def split: option.splits sum.splits)
  moreover have "\<And>f. query (e\<lparr>remove_fails := a, delete_fails := b\<rparr>) body f = query e body f"
    by (rule ext) (simp add: query_def Let_def split: sum.splits)
  moreover have "poll (e\<lparr>remove_fails := a, delete_fails := b\<rparr>) 0 = poll e 0"
    by (rule ext) (rule poll_env_cleanup)
  ultimately show ?thesis by (simp add: try_body_def after_upload_def)
qed

lemma body_trace_clean:
  assumes "body_ok e D F r s1"
  shows "removes (trace s1) = []" and "deletes (trace s1) = []"
    and "length (runs (trace s1)) \<le> 1" and "length (uploads (trace s1)) \<le> 1"
    and "length (generates (trace s1)) \<le> 1" and "mkdtemps (trace s1) = 1"
    and "\<exists>k\<le>40. sleeps (trace s1) = replicate k 3 \<and> length (gets (trace s1)) = k"
    and "generates (trace s1) \<noteq> [] \<Longrightarrow> \<exists>f. uploaded_file s1 = Some f \<and> fstate f = ''ACTIVE''"
    and "uploads (trace s1) \<noteq> [] \<Longrightarrow> \<exists>f0. upload_result e = Inr f0 \<Longrightarrow> uploaded_file s1 \<noteq> None"
proof -
  from assms obtain rs us names gs where
    t: "trace s1 = Mkdtemp # map Run rs @ map Upload us @ poll_events names @
          map (\<lambda>(u, t). Generate u t) gs"
    and l: "length rs \<le> 1" "length us \<le> 1" "length names \<le> 40" "length gs \<le> 1"
    and g: "gs \<noteq> [] \<longrightarrow> (\<exists>f. uploaded_file s1 = Some f \<and> fstate f = ''ACTIVE'')"
    and u: "us \<noteq> [] \<and> (\<exists>f0. upload_result e = Inr f0) \<longrightarrow> uploaded_file s1 \<noteq> None"
    unfolding body_ok_def by blast
  show "removes (trace s1) = []" "deletes (trace s1) = []" by (simp_all add: t)
  show "length (runs (trace s1)) \<le> 1" "length (uploads (trace s1)) \<le> 1"
    "length (generates (trace s1)) \<le> 1" "mkdtemps (trace s1) = 1"
    using l by (simp_all add: t)
  show "\<exists>k\<le>40. sleeps (trace s1) = replicate k 3 \<and> length (gets (trace s1)) = k"
    using l(3) by (intro exI [of _ "length names"]) (simp add: t)
  show "generates (trace s1) \<noteq> [] \<Longrightarrow> \<exists>f. uploaded_file s1 = Some f \<and> fstate f = ''ACTIVE''"
    using g by (simp add: t)
  show "uploads (trace s1) \<noteq> [] \<Longrightarrow> \<exists>f0. upload_result e = Inr f0 \<Longrightarrow> uploaded_file s1 \<noteq> None"
    using u by (simp add: t)
qed

lemma finally_state:
  assumes "ask e body s0 = (res, s2)" and "try_body e body s0 = (r, s1)"
  shows "res = except_clauses r"
    and "trace s2 = trace s1 @
           (case tmp_audio s1 of Some p \<Rightarrow> if path_exists s1 p then [OsRemove p] else [] | None \<Rightarrow> []) @
           (case uploaded_file s1 of Some f \<Rightarrow> [Delete (fname f)] | None \<Rightarrow> [])"
    and "files s2 = (case tmp_audio s1 of
                      Some p \<Rightarrow> if path_exists s1 p \<and> \<not> remove_fails e
                                then removeAll p (files s1) else files s1
                    | None \<Rightarrow> files s1)"
    and "dirs s2 = dirs s1" and "tmp_audio s2 = tmp_audio s1"
    and "uploaded_file s2 = uploaded_file s1"
proof -
  from assms have "res = except_clauses r" and s2: "s2 = snd (finally_clause e s1)"
    by (simp_all add: ask_eq)
  then show "res = except_clauses r" by simp
  show "trace s2 = trace s1 @
           (case tmp_audio s1 of Some p \<Rightarrow> if path_exists s1 p then [OsRemove p] else [] | None \<Rightarrow> []) @
           (case uploaded_file s1 of Some f \<Rightarrow> [Delete (fname f)] | None \<Rightarrow> [])"
    and "files s2 = (case tmp_audio s1 of
                      Some p \<Rightarrow> if path_exists s1 p \<and> \<not> remove_fails e
                                then removeAll p (files s1) else files s1
                    | None \<Rightarrow> files s1)"
    and "dirs s2 = dirs s1" and "tmp_audio s2 = tmp_audio s1"
    and "uploaded_file s2 = uploaded_file s1"
    unfolding s2 by (simp_all add: finally_frame)
qed

lemma poll_stop:
  "uploaded_file s = Some f \<Longrightarrow> fstate f = ''ACTIVE'' \<or> max_wait \<le> w \<Longrightarrow> poll e w s = (Inr (), s)"
  by (auto simp add: poll.simps [of e w s])

lemma poll_round:
  "uploaded_file s = Some f \<Longrightarrow> fstate f \<noteq> ''ACTIVE'' \<Longrightarrow> w < max_wait \<Longrightarrow>
   get_result e (w + 3) = Inr f' \<Longrightarrow>
   poll e w s = poll e (w + 3) ((log (Get (fname f)) (log (Sleep 3) s))\<lparr>uploaded_file := Some f'\<rparr>)"
  by (simp add: poll.simps [of e w s])

lemma poll_get_fails:
  "uploaded_file s = Some f \<Longrightarrow> fstate f \<noteq> ''ACTIVE'' \<Longrightarrow> w < max_wait \<Longrightarrow>
   get_result e (w + 3) = Inl msg \<Longrightarrow>
   poll e w s = (Inl (Exception msg), log (Get (fname f)) (log (Sleep 3) s))"
  by (simp add: poll.simps [of e w s])

lemma after_upload_timeout:
  "poll e 0 s = (Inr (), s') \<Longrightarrow> uploaded_file s' = Some f \<Longrightarrow> fstate f \<noteq> ''ACTIVE'' \<Longrightarrow>
   after_upload e body s = (Inl (HTTPException 500 ''File processing timed out''), s')"
  by (simp add: after_upload_def seq_def check_active_def)

lemma sum_list_replicate_3: "sum_list (replicate k (3::nat)) = 3 * k"
  by (induction k) simp_all

lemma try_body_download_fails:
  "download e body s = (Inl x, s') \<Longrightarrow> try_body e body s = (Inl x, s')"
  by (simp add: try_body_def seq_def)

lemma download_mkdtemp_fails:
  "mkdtemp_result e = Inl msg \<Longrightarrow> fst (download e body s) = Inl (Exception msg)"
  by (simp add: download_def)

lemma download_run_fails:
  "mkdtemp_result e = Inr d \<Longrightarrow> run_result e = Inl msg \<Longrightarrow>
   fst (download e body s) = Inl (Exception msg)"
  by (simp add: download_def Let_def)

lemma download_nonzero:
  "mkdtemp_result e = Inr d \<Longrightarrow> run_result e = Inr (rc, err) \<Longrightarrow> rc \<noteq> 0 \<Longrightarrow>
   fst (download e body s) = Inl (HTTPException 400 (''yt-dlp error: '' @ err))"
  by (simp add: download_def Let_def)

lemma fst_try_body_download:
  "fst (download e body s) = Inl x \<Longrightarrow> fst (try_body e body s) = Inl x"
  by (cases "download e body s") (simp add: try_body_download_fails)

lemma find_None_all: "list_all (\<lambda>x. \<not> P x) xs \<Longrightarrow> find P xs = None"
  by (induction xs) auto

lemma asset_missing:
  assumes "mkdtemp_result e = Inr d" "run_result e = Inr (0, err)"
    and "list_all (\<lambda>p. fst p \<noteq> d) F"
    and "list_all (\<lambda>f. \<not> starts_with f ''audio'') (run_files e)"
  shows "fst (try_body e body (initial D F)) = Inl (HTTPException 500 ''Audio file not created'')"
proof -
  obtain sa where d: "download e body (initial D F) = (Inr d, sa)"
    using assms(1,2) by (simp add: download_def Let_def)
  note df = download_frame [OF d]
  have fa: "files sa = F @ map (Pair d) (run_files e)"
    and ta: "tmp_audio sa = Some (d, ''audio.mp3'')"
    using df(4,5) assms(1) by (simp_all add: initial_def)
  have "filter (\<lambda>p. fst p = d) F = []"
    using assms(3) by (induction F) auto
  then have ld: "listdir sa d = run_files e"
    by (simp add: listdir_def fa comp_def)
  have "\<not> starts_with f ''audio''" if "f \<in> set (run_files e)" for f
    using assms(4) that by (simp add: list_all_iff)
  moreover have "starts_with ''audio.mp3'' ''audio''" by (simp add: starts_with_def)
  ultimately have "''audio.mp3'' \<notin> set (run_files e)" by blast
  moreover have "(d, ''audio.mp3'') \<notin> set F" using assms(3) by (auto simp: list_all_iff)
  ultimately have ne: "\<not> path_exists sa (d, ''audio.mp3'')"
    by (auto simp: path_exists_def fa)
  have "find (\<lambda>f. starts_with f ''audio'') (listdir sa d) = None"
    unfolding ld using assms(4) by (rule find_None_all)
  with ne ta have "locate d sa = (Inl (HTTPException 500 ''Audio file not created''), sa)"
    by (simp add: locate_def Let_def)
  with d show ?thesis by (simp add: try_body_def seq_def)
qed

lemma oracle_fails_body:
  "fst (try_body oracle_fails a_request (initial {} [])) = Inl (Exception ''503 UNAVAILABLE'')"
  "uploaded_file (snd (try_body oracle_fails a_request (initial {} []))) = Some active"
  "tmp_audio (snd (try_body oracle_fails a_request (initial {} []))) = Some (''/tmp/tmpx'', ''audio.webm'')"
  "path_exists (snd (try_body oracle_fails a_request (initial {} []))) (''/tmp/tmpx'', ''audio.webm'')"
  by code_simp+

lemma never_ready_final:
  "uploaded_file (snd (ask never_ready a_request (initial {} []))) = Some processing"
  by code_simp

lemma download_fails_env:
  "mkdtemp_result download_fails = Inr ''/tmp/tmpx''"
  "run_result download_fails = Inr (1, ''ERROR: Unsupported URL'')"
  by (simp_all add: download_fails_def oracle_fails_def)

lemma oracle_fails_final:
  "tmp_audio (snd (ask oracle_fails a_request (initial {} []))) = Some (''/tmp/tmpx'', ''audio.webm'')"
  by code_simp

lemma no_audio_env:
  "mkdtemp_result no_audio = Inr ''/tmp/tmpx''" "run_result no_audio = Inr (0, [])"
  by (simp_all add: no_audio_def oracle_fails_def)

section \<open>The claims about the handler\<close>

text \<open>
  Claim C2. On every exit path of the handler (a response, or an error of any step) the
  cleanup runs. With \<open>s1\<close> the state in which the body of the \<^verbatim>\<open>try\<close> statement ends and
  \<open>s2\<close> the state in which the handler ends: removing the local audio file is attempted
  exactly when a path is recorded and exists, and then once, for that path (and the path is
  gone afterwards unless the removal failed); deleting the remote handle is requested
  exactly when a handle is recorded, and then once, under its name; a handle is recorded
  whenever the upload was made and succeeded; in particular, when the body fails after the
  upload succeeded, the deletion is attempted exactly once. The outcome of the request is
  the outcome of the body passed through the \<^verbatim>\<open>except\<close> clauses, whether or not the two
  cleanup calls fail.
\<close>

theorem cleanup_on_every_exit:
  assumes "try_body e body (initial D F) = (r, s1)"
    and "ask e body (initial D F) = (res, s2)"
  shows "res = except_clauses r \<and>
     removes (trace s2) =
       (case tmp_audio s1 of Some p \<Rightarrow> if path_exists s1 p then [p] else [] | None \<Rightarrow> []) \<and>
     deletes (trace s2) = (case uploaded_file s1 of Some f \<Rightarrow> [fname f] | None \<Rightarrow> []) \<and>
     (uploads (trace s1) \<noteq> [] \<and> (\<exists>f0. upload_result e = Inr f0) \<longrightarrow> uploaded_file s1 \<noteq> None) \<and>
     (\<forall>f x. uploaded_file s1 = Some f \<and> r = Inl x \<longrightarrow> deletes (trace s2) = [fname f]) \<and>
     (\<forall>p. tmp_audio s1 = Some p \<and> path_exists s1 p \<and> \<not> remove_fails e \<longrightarrow> \<not> path_exists s2 p) \<and>
     (\<forall>a b. fst (ask (e\<lparr>remove_fails := a, delete_fails := b\<rparr>) body (initial D F)) = res)"
proof -
  note ok = try_body_summary [OF assms(1)]
  note cl = body_trace_clean [OF ok]
  note fs = finally_state [OF assms(2) assms(1)]
  have 1: "res = except_clauses r" by (rule fs(1))
  have 2: "removes (trace s2) =
       (case tmp_audio s1 of Some p \<Rightarrow> if path_exists s1 p then [p] else [] | None \<Rightarrow> [])"
    by (simp add: fs(2) cl(1) split: option.splits)
  have 3: "deletes (trace s2) = (case uploaded_file s1 of Some f \<Rightarrow> [fname f] | None \<Rightarrow> [])"
    by (simp add: fs(2) cl(2) split: option.splits)
  have 4: "uploads (trace s1) \<noteq> [] \<and> (\<exists>f0. upload_result e = Inr f0) \<longrightarrow> uploaded_file s1 \<noteq> None"
    using cl(9) by blast
  have 5: "\<forall>f x. uploaded_file s1 = Some f \<and> r = Inl x \<longrightarrow> deletes (trace s2) = [fname f]"
    using 3 by simp
  have 6: "\<forall>p. tmp_audio s1 = Some p \<and> path_exists s1 p \<and> \<not> remove_fails e \<longrightarrow> \<not> path_exists s2 p"
    by (simp add: fs(3) path_exists_def)
  have 7: "\<forall>a b. fst (ask (e\<lparr>remove_fails := a, delete_fails := b\<rparr>) body (initial D F)) = res"
  proof (intro allI)
    fix a b
    have "try_body (e\<lparr>remove_fails := a, delete_fails := b\<rparr>) body (initial D F) = (r, s1)"
      using assms(1) by (simp add: try_body_env_cleanup)
    then show "fst (ask (e\<lparr>remove_fails := a, delete_fails := b\<rparr>) body (initial D F)) = res"
      by (simp add: ask_eq 1)
  qed
  from 1 2 3 4 5 6 7 show ?thesis by blast
qed

theorem cleanup_on_every_exit_witness:
  "fst (ask oracle_fails a_request (initial {} [])) = Inl (HTTPException 500 ''503 UNAVAILABLE'') \<and>
   deletes (trace (snd (ask oracle_fails a_request (initial {} [])))) = [''files/abc''] \<and>
   removes (trace (snd (ask oracle_fails a_request (initial {} [])))) = [(''/tmp/tmpx'', ''audio.webm'')]"
proof -
  have t: "try_body oracle_fails a_request (initial {} []) =
      (fst (try_body oracle_fails a_request (initial {} [])),
       snd (try_body oracle_fails a_request (initial {} [])))"
    by simp
  have a: "ask oracle_fails a_request (initial {} []) =
      (fst (ask oracle_fails a_request (initial {} [])),
       snd (ask oracle_fails a_request (initial {} [])))"
    by simp
  have "fname active = ''files/abc''" by (simp add: active_def)
  with cleanup_on_every_exit [OF t a] show ?thesis
    by (simp add: oracle_fails_body)
qed

text \<open>
  Claim C6. The readiness poll: the ceiling is 120 seconds; the loop stops at once when the
  state is ACTIVE or the waiting has reached the ceiling; otherwise a round sleeps 3
  seconds, fetches the handle again and goes on with 3 more seconds counted. In every
  request there are at most 40 rounds, each with one sleep of 3 seconds and one fetch, at
  most 120 seconds in all (the loop is a total function: it always terminates). When the
  loop ends with a handle that is not ACTIVE, the request fails with the status 500 and
  the detail \<^verbatim>\<open>File processing timed out\<close>, in the state the loop left; and whenever the
  handle is not ACTIVE at the end of a request, the model was never queried and the request
  failed.
\<close>

theorem poll_bounded:
  assumes "ask e body (initial D F) = (res, s2)"
  shows "max_wait = 120 \<and>
    (\<forall>w s f. uploaded_file s = Some f \<and> (fstate f = ''ACTIVE'' \<or> max_wait \<le> w) \<longrightarrow>
       poll e w s = (Inr (), s)) \<and>
    (\<forall>w s f f'. uploaded_file s = Some f \<and> fstate f \<noteq> ''ACTIVE'' \<and> w < max_wait \<and>
         get_result e (w + 3) = Inr f' \<longrightarrow>
       poll e w s =
         poll e (w + 3) ((log (Get (fname f)) (log (Sleep 3) s))\<lparr>uploaded_file := Some f'\<rparr>)) \<and>
    (\<exists>k\<le>40. sleeps (trace s2) = replicate k 3 \<and> length (gets (trace s2)) = k) \<and>
    sum_list (sleeps (trace s2)) \<le> 120 \<and>
    (\<forall>s s' f. poll e 0 s = (Inr (), s') \<and> uploaded_file s' = Some f \<and> fstate f \<noteq> ''ACTIVE'' \<longrightarrow>
       after_upload e body s = (Inl (HTTPException 500 ''File processing timed out''), s')) \<and>
    (\<forall>f. uploaded_file s2 = Some f \<and> fstate f \<noteq> ''ACTIVE'' \<longrightarrow>
       generates (trace s2) = [] \<and> (\<exists>x. res = Inl x))"
proof -
  obtain r s1 where t: "try_body e body (initial D F) = (r, s1)"
    by (cases "try_body e body (initial D F)")
  note ok = try_body_summary [OF t]
  note cl = body_trace_clean [OF ok]
  note fs = finally_state [OF assms t]
  have sl: "sleeps (trace s2) = sleeps (trace s1)" "gets (trace s2) = gets (trace s1)"
    "generates (trace s2) = generates (trace s1)"
    by (simp_all add: fs(2) split: option.splits)
  from cl(7) obtain k where k: "k \<le> 40" "sleeps (trace s1) = replicate k 3"
    "length (gets (trace s1)) = k" by blast
  have 4: "\<exists>k\<le>40. sleeps (trace s2) = replicate k 3 \<and> length (gets (trace s2)) = k"
    using k sl by auto
  have 5: "sum_list (sleeps (trace s2)) \<le> 120"
    using k by (simp add: sl sum_list_replicate_3)
  have 7: "\<forall>f. uploaded_file s2 = Some f \<and> fstate f \<noteq> ''ACTIVE'' \<longrightarrow>
       generates (trace s2) = [] \<and> (\<exists>x. res = Inl x)"
  proof (intro allI impI)
    fix f
    assume a: "uploaded_file s2 = Some f \<and> fstate f \<noteq> ''ACTIVE''"
    then have u: "uploaded_file s1 = Some f" "fstate f \<noteq> ''ACTIVE''" by (simp_all add: fs(6))
    with cl(8) have g: "generates (trace s1) = []" by auto
    from ok obtain gs where "generates (trace s1) = gs" "\<forall>v. r = Inr v \<longrightarrow> gs \<noteq> []"
      unfolding body_ok_def by auto
    with g have "\<forall>v. r \<noteq> Inr v" by auto
    then obtain x where "r = Inl x" by (cases r) auto
    then have "\<exists>y. res = Inl y" unfolding fs(1) by (cases x) simp_all
    with g sl show "generates (trace s2) = [] \<and> (\<exists>x. res = Inl x)" by simp
  qed
  have 1: "max_wait = 120" by (simp add: max_wait_def)
  have 2: "\<forall>w s f. uploaded_file s = Some f \<and> (fstate f = ''ACTIVE'' \<or> max_wait \<le> w) \<longrightarrow>
       poll e w s = (Inr (), s)"
    using poll_stop by blast
  have 3: "\<forall>w s f f'. uploaded_file s = Some f \<and> fstate f \<noteq> ''ACTIVE'' \<and> w < max_wait \<and>
         get_result e (w + 3) = Inr f' \<longrightarrow>
       poll e w s =
         poll e (w + 3) ((log (Get (fname f)) (log (Sleep 3) s))\<lparr>uploaded_file := Some f'\<rparr>)"
    using poll_round by blast
  have 6: "\<forall>s s' f. poll e 0 s = (Inr (), s') \<and> uploaded_file s' = Some f \<and> fstate f \<noteq> ''ACTIVE'' \<longrightarrow>
       after_upload e body s = (Inl (HTTPException 500 ''File processing timed out''), s')"
    using after_upload_timeout by blast
  from 1 2 3 4 5 6 7 show ?thesis by (intro conjI)
qed

theorem poll_bounded_witness:
  "generates (trace (snd (ask never_ready a_request (initial {} [])))) = [] \<and>
   (\<exists>x. fst (ask never_ready a_request (initial {} [])) = Inl x) \<and>
   sum_list (sleeps (trace (snd (ask never_ready a_request (initial {} []))))) \<le> 120"
proof -
  have a: "ask never_ready a_request (initial {} []) =
      (fst (ask never_ready a_request (initial {} [])),
       snd (ask never_ready a_request (initial {} [])))"
    by simp
  have "fstate processing \<noteq> ''ACTIVE''" by (simp add: processing_def)
  with poll_bounded [OF a] never_ready_final show ?thesis by blast
qed

text \<open>
  Claim C7. Failure propagation: a non-zero exit of the downloader fails the request with
  the status 400 and the downloader's diagnostic output in the detail; every failure is an
  HTTPException with the status 400 or 500, and the status is 400 exactly when the
  downloader exited non-zero; a missing audio file fails with 500 and the detail
  \<^verbatim>\<open>Audio file not created\<close>; an
  exception of \<^verbatim>\<open>mkdtemp\<close> or of the downloader call fails with 500 and its message.
  Nothing is retried: a fetch that raises ends the loop at once, and the temporary
  directory is made once and the downloader, the upload and the model are called at most
  once in a request.
\<close>

theorem failure_propagation:
  assumes "ask e body (initial D F) = (res, s2)"
  shows
   "(\<forall>d rc err. mkdtemp_result e = Inr d \<and> run_result e = Inr (rc, err) \<and> rc \<noteq> 0 \<longrightarrow>
       res = Inl (HTTPException 400 (''yt-dlp error: '' @ err))) \<and>
    (\<forall>x. res = Inl x \<longrightarrow>
       (\<exists>c det. x = HTTPException c det \<and> (c = 400 \<or> c = 500) \<and>
          ((c = 400) =
           (\<exists>d rc err. mkdtemp_result e = Inr d \<and> run_result e = Inr (rc, err) \<and> rc \<noteq> 0)))) \<and>
    (\<forall>d err. mkdtemp_result e = Inr d \<and> run_result e = Inr (0, err) \<and>
         list_all (\<lambda>p. fst p \<noteq> d) F \<and>
         list_all (\<lambda>f. \<not> starts_with f ''audio'') (run_files e) \<longrightarrow>
       res = Inl (HTTPException 500 ''Audio file not created'')) \<and>
    (\<forall>msg. mkdtemp_result e = Inl msg \<longrightarrow> res = Inl (HTTPException 500 msg)) \<and>
    (\<forall>d msg. mkdtemp_result e = Inr d \<and> run_result e = Inl msg \<longrightarrow>
       res = Inl (HTTPException 500 msg)) \<and>
    (\<forall>w s f msg. uploaded_file s = Some f \<and> fstate f \<noteq> ''ACTIVE'' \<and> w < max_wait \<and>
         get_result e (w + 3) = Inl msg \<longrightarrow>
       poll e w s = (Inl (Exception msg), log (Get (fname f)) (log (Sleep 3) s))) \<and>
    mkdtemps (trace s2) = 1 \<and> length (runs (trace s2)) \<le> 1 \<and>
    length (uploads (trace s2)) \<le> 1 \<and> length (generates (trace s2)) \<le> 1"
proof -
  obtain r s1 where t: "try_body e body (initial D F) = (r, s1)"
    by (cases "try_body e body (initial D F)")
  note ok = try_body_summary [OF t]
  note cl = body_trace_clean [OF ok]
  note fs = finally_state [OF assms t]
  have r: "r = fst (try_body e body (initial D F))" using t by simp
  have 1: "\<forall>d rc err. mkdtemp_result e = Inr d \<and> run_result e = Inr (rc, err) \<and> rc \<noteq> 0 \<longrightarrow>
       res = Inl (HTTPException 400 (''yt-dlp error: '' @ err))"
  proof (intro allI impI)
    fix d rc err
    assume "mkdtemp_result e = Inr d \<and> run_result e = Inr (rc, err) \<and> rc \<noteq> 0"
    then have a: "mkdtemp_result e = Inr d" "run_result e = Inr (rc, err)" "rc \<noteq> 0"
      by blast+
    have "r = Inl (HTTPException 400 (''yt-dlp error: '' @ err))"
      unfolding r by (rule fst_try_body_download) (rule download_nonzero [OF a])
    then show "res = Inl (HTTPException 400 (''yt-dlp error: '' @ err))"
      by (simp add: fs(1))
  qed
  have cls: "\<forall>x. r = Inl x \<longrightarrow>
         (\<exists>msg. x = Exception msg \<or> x = ValueError msg) \<or>
         x = HTTPException 500 ''Audio file not created'' \<or>
         x = HTTPException 500 ''File processing timed out'' \<or>
         (\<exists>d rc err. mkdtemp_result e = Inr d \<and> run_result e = Inr (rc, err) \<and> rc \<noteq> 0 \<and>
            x = HTTPException 400 (''yt-dlp error: '' @ err))"
    using ok unfolding body_ok_def by blast
  have 2: "\<forall>x. res = Inl x \<longrightarrow>
       (\<exists>c det. x = HTTPException c det \<and> (c = 400 \<or> c = 500) \<and>
          ((c = 400) =
           (\<exists>d rc err. mkdtemp_result e = Inr d \<and> run_result e = Inr (rc, err) \<and> rc \<noteq> 0)))"
  proof (intro allI impI)
    fix x
    assume x: "res = Inl x"
    let ?nz = "\<exists>d rc err. mkdtemp_result e = Inr d \<and> run_result e = Inr (rc, err) \<and> rc \<noteq> 0"
    show "\<exists>c det. x = HTTPException c det \<and> (c = 400 \<or> c = 500) \<and> ((c = 400) = ?nz)"
    proof (cases ?nz)
      case True
      then obtain d rc err where "mkdtemp_result e = Inr d \<and> run_result e = Inr (rc, err) \<and> rc \<noteq> 0"
        by blast
      with 1 have "res = Inl (HTTPException 400 (''yt-dlp error: '' @ err))" by blast
      with x have "x = HTTPException 400 (''yt-dlp error: '' @ err)" by simp
      with True show ?thesis by blast
    next
      case False
      from x fs(1) obtain y where y: "r = Inl y" by (cases r) simp_all
      with cls False have
        "(\<exists>msg. y = Exception msg \<or> y = ValueError msg) \<or>
         y = HTTPException 500 ''Audio file not created'' \<or>
         y = HTTPException 500 ''File processing timed out''"
        by blast
      then have "\<exists>det. except_clauses (Inl y :: py_exn + response) = Inl (HTTPException 500 det)"
        by auto
      with x y fs(1) False show ?thesis by auto
    qed
  qed
  have 3: "\<forall>d err. mkdtemp_result e = Inr d \<and> run_result e = Inr (0, err) \<and>
         list_all (\<lambda>p. fst p \<noteq> d) F \<and>
         list_all (\<lambda>f. \<not> starts_with f ''audio'') (run_files e) \<longrightarrow>
       res = Inl (HTTPException 500 ''Audio file not created'')"
    using asset_missing [of e _ _ F body D] by (auto simp add: fs(1) r)
  have 4: "\<forall>msg. mkdtemp_result e = Inl msg \<longrightarrow> res = Inl (HTTPException 500 msg)"
  proof (intro allI impI)
    fix msg
    assume "mkdtemp_result e = Inl msg"
    then have "r = Inl (Exception msg)"
      unfolding r by (intro fst_try_body_download download_mkdtemp_fails)
    then show "res = Inl (HTTPException 500 msg)" by (simp add: fs(1))
  qed
  have 5: "\<forall>d msg. mkdtemp_result e = Inr d \<and> run_result e = Inl msg \<longrightarrow>
       res = Inl (HTTPException 500 msg)"
  proof (intro allI impI)
    fix d msg
    assume "mkdtemp_result e = Inr d \<and> run_result e = Inl msg"
    then have a: "mkdtemp_result e = Inr d" "run_result e = Inl msg" by blast+
    have "r = Inl (Exception msg)"
      unfolding r by (rule fst_try_body_download) (rule download_run_fails [OF a])
    then show "res = Inl (HTTPException 500 msg)" by (simp add: fs(1))
  qed
  have 6: "\<forall>w s f msg. uploaded_file s = Some f \<and> fstate f \<noteq> ''ACTIVE'' \<and> w < max_wait \<and>
         get_result e (w + 3) = Inl msg \<longrightarrow>
       poll e w s = (Inl (Exception msg), log (Get (fname f)) (log (Sleep 3) s))"
    using poll_get_fails by blast
  have 7: "mkdtemps (trace s2) = 1" "length (runs (trace s2)) \<le> 1"
    "length (uploads (trace s2)) \<le> 1" "length (generates (trace s2)) \<le> 1"
    using cl(3,4,5,6) by (simp_all add: fs(2) split: option.splits)
  from 1 2 3 4 5 6 7 show ?thesis by (intro conjI)
qed

theorem failure_propagation_witness:
  "fst (ask download_fails a_request (initial {} [])) =
     Inl (HTTPException 400 (''yt-dlp error: '' @ ''ERROR: Unsupported URL'')) \<and>
   fst (ask no_audio a_request (initial {} [])) =
     Inl (HTTPException 500 ''Audio file not created'')"
proof -
  have a: "ask download_fails a_request (initial {} []) =
      (fst (ask download_fails a_request (initial {} [])),
       snd (ask download_fails a_request (initial {} [])))"
    by simp
  have "(1::int) \<noteq> 0" by simp
  with failure_propagation [OF a] download_fails_env
  have 1: "fst (ask download_fails a_request (initial {} [])) =
     Inl (HTTPException 400 (''yt-dlp error: '' @ ''ERROR: Unsupported URL''))"
    by blast
  have b: "ask no_audio a_request (initial {} []) =
      (fst (ask no_audio a_request (initial {} [])),
       snd (ask no_audio a_request (initial {} [])))"
    by simp
  have "list_all (\<lambda>p. fst p \<noteq> ''/tmp/tmpx'') ([] :: path list)"
    "list_all (\<lambda>f. \<not> starts_with f ''audio'') (run_files no_audio)"
    by (simp_all add: no_audio_def starts_with_def)
  with failure_propagation [OF b] no_audio_env
  have 2: "fst (ask no_audio a_request (initial {} [])) =
     Inl (HTTPException 500 ''Audio file not created'')"
    by blast
  from 1 2 show ?thesis by simp
qed

text \<open>
  Claim C10. The temporary directory is never removed: at the end of every request the
  directories are those of the start and the one \<^verbatim>\<open>mkdtemp\<close> made. Cleanup removes at
  most one file, and only under the path recorded in \<^verbatim>\<open>tmp_audio\<close>: every other entry
  that was there after the download is still there (and no entry is added).
\<close>

theorem temp_dir_kept:
  assumes "ask e body (initial D F) = (res, s2)"
  shows "dirs s2 = (case mkdtemp_result e of Inr d \<Rightarrow> insert d D | Inl _ \<Rightarrow> D) \<and>
     (\<forall>q. q \<in> set (F @ (case mkdtemp_result e of
                          Inr d \<Rightarrow> map (Pair d) (run_files e) | Inl _ \<Rightarrow> [])) \<and>
          tmp_audio s2 \<noteq> Some q \<longrightarrow> q \<in> set (files s2)) \<and>
     set (files s2) \<subseteq>
       set (F @ (case mkdtemp_result e of Inr d \<Rightarrow> map (Pair d) (run_files e) | Inl _ \<Rightarrow> [])) \<and>
     length (removes (trace s2)) \<le> 1 \<and>
     (\<forall>p. p \<in> set (removes (trace s2)) \<longrightarrow> tmp_audio s2 = Some p)"
proof -
  obtain r s1 where t: "try_body e body (initial D F) = (r, s1)"
    by (cases "try_body e body (initial D F)")
  note ok = try_body_summary [OF t]
  note cl = body_trace_clean [OF ok]
  note fs = finally_state [OF assms t]
  let ?W = "F @ (case mkdtemp_result e of Inr d \<Rightarrow> map (Pair d) (run_files e) | Inl _ \<Rightarrow> [])"
  from ok have d1: "dirs s1 = (case mkdtemp_result e of Inr d \<Rightarrow> insert d D | Inl _ \<Rightarrow> D)"
    and f1: "files s1 = ?W"
    unfolding body_ok_def by blast+
  have 1: "dirs s2 = (case mkdtemp_result e of Inr d \<Rightarrow> insert d D | Inl _ \<Rightarrow> D)"
    by (simp add: fs(4) d1)
  have 2: "\<forall>q. q \<in> set ?W \<and> tmp_audio s2 \<noteq> Some q \<longrightarrow> q \<in> set (files s2)"
    unfolding f1 [symmetric] fs(3) fs(5) by (auto split: option.splits)
  have 3: "set (files s2) \<subseteq> set ?W"
    unfolding f1 [symmetric] fs(3) by (auto split: option.splits)
  have rm: "removes (trace s2) =
      (case tmp_audio s1 of Some p \<Rightarrow> if path_exists s1 p then [p] else [] | None \<Rightarrow> [])"
    by (simp add: fs(2) cl(1) split: option.splits)
  have 4: "length (removes (trace s2)) \<le> 1"
    unfolding rm by (simp split: option.splits)
  have 5: "\<forall>p. p \<in> set (removes (trace s2)) \<longrightarrow> tmp_audio s2 = Some p"
    unfolding rm fs(5) by (auto split: option.splits if_splits)
  from 1 2 3 4 5 show ?thesis by (intro conjI)
qed

theorem temp_dir_kept_witness:
  "''/tmp/tmpx'' \<in> dirs (snd (ask oracle_fails a_request (initial {} []))) \<and>
   (''/tmp/tmpx'', ''audio.m4a'') \<in> set (files (snd (ask oracle_fails a_request (initial {} [])))) \<and>
   length (removes (trace (snd (ask oracle_fails a_request (initial {} []))))) \<le> 1"
proof -
  have a: "ask oracle_fails a_request (initial {} []) =
      (fst (ask oracle_fails a_request (initial {} [])),
       snd (ask oracle_fails a_request (initial {} [])))"
    by simp
  have e: "mkdtemp_result oracle_fails = Inr ''/tmp/tmpx''"
    "run_files oracle_fails = [''audio.webm'', ''audio.m4a'']"
    by (simp_all add: oracle_fails_def)
  note th = temp_dir_kept [OF a]
  from th have "dirs (snd (ask oracle_fails a_request (initial {} []))) = insert ''/tmp/tmpx'' {}"
    by (simp add: e)
  moreover from th have "(''/tmp/tmpx'', ''audio.m4a'') \<in> set (files (snd (ask oracle_fails a_request (initial {} []))))"
    by (simp add: e oracle_fails_final)
  moreover from th have "length (removes (trace (snd (ask oracle_fails a_request (initial {} []))))) \<le> 1"
    by blast
  ultimately show ?thesis by simp
qed

end
